theory Spec2Isabelle
  imports Main
begin

section \<open>The quantile sketch routine (\<open>sketch.py\<close>, \<open>to_iterator\<close> and \<open>sketch\<close>)\<close>

text \<open>
  Every failure of the source is a bare \<open>Exception\<close> told apart by its message, or an
  exception of the interpreter or of the tensor library. Each is named here:
  \<^item> \<open>EmptySourceError\<close>: \<open>Exception('Did not get any data from data_source. Cannot sketch.')\<close>;
  \<^item> \<open>NoDefaultDataError\<close>: \<open>Exception('Sketcher has no default data. Aborting.')\<close>;
  \<^item> \<open>UnsupportedSourceError\<close>: \<open>Exception('Sketcher: data_source type is not understood')\<close>;
  \<^item> \<open>TypeError\<close>: the interpreter's (\<open>next\<close> of an object that is not an iterator, \<open>len\<close>
    of an object without length, \<open>range\<close> of a float);
  \<^item> \<open>RuntimeError\<close>: the tensor library's (\<open>view(0, -1)\<close>, a tensor too large to allocate,
    \<open>torch.randint\<close> with a negative size or an empty range);
  \<^item> \<open>IndexError\<close>: indexing past the end, or indexing \<open>None\<close>.
\<close>

datatype error =
    EmptySourceError
  | NoDefaultDataError
  | UnsupportedSourceError
  | TypeError
  | RuntimeError
  | IndexError

text \<open>
  \<open>warnings.warn('Number of datapoints not reaching %d, but only %d. ...' % (num_examples, pos))\<close>
\<close>

datatype warning = NotReaching int int

text \<open>
  A batch is the list of its samples (the rows of \<open>imgs\<close>); the labels of a batch are never
  read.

  A data source is one of the kinds \<open>to_iterator\<close> tells apart. Each carries what iterating
  it yields: the batches a stream or a queue delivers before its \<open>None\<close> sentinel, the rows
  of a tensor, the samples of a dataset, the batches of a loader. The last branch of
  \<open>to_iterator\<close> takes any other iterable: an iterator object (a generator, the result of
  \<open>iter\<close>), or an iterable that is not an iterator (a list of batches).
\<close>

type_synonym 'a batch = "'a list"

datatype 'a data_source =
    DataStreamSrc "'a batch list"
  | QueueSrc "'a batch list"
  | TensorSrc "'a batch"
  | DatasetSrc "'a list"
  | DataLoaderSrc "'a batch list"
  | IteratorSrc "'a batch list"
  | IterableSrc "'a batch list"
  | NotIterableSrc

text \<open>
  What \<open>to_iterator\<close> returns: an iterator, given by the batches it has still to yield
  (\<open>next\<close> pops the head, and the empty list raises \<open>StopIteration\<close>); or the \<open>DataLoader\<close>
  or the iterable itself, which has no \<open>__next__\<close>, so that \<open>next\<close> of it raises
  \<open>TypeError\<close>.
\<close>

datatype 'a data_iterator =
    PyIterator "'a batch list"
  | DataLoaderObj "'a batch list"
  | IterableObj "'a batch list"

text \<open>\<open>DataLoader(data_source, batch_size=5000)\<close>: consecutive batches of at most 5000 samples.\<close>

function batches_of :: "nat \<Rightarrow> 'a list \<Rightarrow> 'a batch list" where
  "batches_of n xs = (if n = 0 \<or> xs = [] then [] else take n xs # batches_of n (drop n xs))"
  by pat_completeness auto
termination
  by (relation "measure (\<lambda>(n, xs). length xs)") auto

declare batches_of.simps [simp del]

fun to_iterator :: "'a data_source option \<Rightarrow> error + 'a data_iterator option" where
  "to_iterator None = Inr None"
| "to_iterator (Some (DataStreamSrc bs)) = Inr (Some (PyIterator bs))"
| "to_iterator (Some (QueueSrc bs)) = Inr (Some (PyIterator bs))"
| "to_iterator (Some (TensorSrc t)) = Inr (Some (PyIterator [t]))"
| "to_iterator (Some (DatasetSrc xs)) = Inr (Some (DataLoaderObj (batches_of 5000 xs)))"
| "to_iterator (Some (DataLoaderSrc bs)) = Inr (Some (DataLoaderObj bs))"
| "to_iterator (Some (IteratorSrc bs)) = Inr (Some (PyIterator bs))"
| "to_iterator (Some (IterableSrc bs)) = Inr (Some (IterableObj bs))"
| "to_iterator (Some NotIterableSrc) = Inl UnsupportedSourceError"

text \<open>
  An object that \<open>to_iterator\<close> has returned, given to \<open>to_iterator\<close> again: an iterator
  is an iterable, a loader is a loader.
\<close>

fun as_source :: "'a data_iterator \<Rightarrow> 'a data_source" where
  "as_source (PyIterator bs) = IteratorSrc bs"
| "as_source (DataLoaderObj bs) = DataLoaderSrc bs"
| "as_source (IterableObj bs) = IterableSrc bs"

text \<open>
  The accumulation buffer is a list of rows. \<open>torch.empty((num_examples, width))\<close> allocates
  rows that hold no datum yet (\<open>None\<close>); a computed row is \<open>Some\<close> of the module's output for
  one sample. The module is applied to a batch row by row (\<open>module(imgs[:n_imgs])\<close> followed by
  \<open>view(n_imgs, -1)\<close> gives one row per sample).

  The machine bounds the tensors that can exist: \<open>capacity\<close> is the largest number of rows
  that the tensor library can allocate for one tensor (below \<open>2^63\<close> on every machine).
  Asking for more raises \<open>RuntimeError\<close>.
\<close>

type_synonym 'b buffer = "'b option list"

text \<open>\<open>torch.empty((num_examples, computed.shape[1]))\<close>\<close>

definition torch_empty :: "int \<Rightarrow> int \<Rightarrow> error + 'b buffer" where
  "torch_empty capacity k =
     (if k < 0 \<or> capacity < k then Inl RuntimeError else Inr (replicate (nat k) None))"

text \<open>\<open>torch.cat((processed, computed))\<close>\<close>

definition torch_cat :: "int \<Rightarrow> 'b buffer \<Rightarrow> 'b buffer \<Rightarrow> error + 'b buffer" where
  "torch_cat capacity processed computed =
     (if capacity < int (length processed + length computed) then Inl RuntimeError
      else Inr (processed @ computed))"

text \<open>\<open>processed[pos:pos+n_imgs] = computed\<close>\<close>

definition slice_assign :: "'b buffer \<Rightarrow> int \<Rightarrow> 'b buffer \<Rightarrow> 'b buffer" where
  "slice_assign processed pos computed =
     take (nat pos) processed @ computed @ drop (nat pos + length computed) processed"

text \<open>The loop test \<open>True if num_examples is None else pos < num_examples\<close>.\<close>

definition loop_test :: "int option \<Rightarrow> int \<Rightarrow> bool" where
  "loop_test num_examples pos = (case num_examples of None \<Rightarrow> True | Some k \<Rightarrow> pos < k)"

text \<open>
  The \<open>while\<close> loop of \<open>sketch\<close> for one module, on the remaining batches of an iterator.
  It returns the exception that ended it, or \<open>processed\<close> (\<open>None\<close> until a first batch has
  been obtained) and \<open>pos\<close>; then what is left of the iterator, and the warnings emitted.
  A batch of no sample ends the loop with the \<open>RuntimeError\<close> of \<open>computed.view(0, -1)\<close>
  (line 88), before anything is allocated or stored.
\<close>

fun accumulate ::
  "('a \<Rightarrow> 'b) \<Rightarrow> int option \<Rightarrow> int \<Rightarrow> 'a batch list \<Rightarrow> 'b buffer option \<Rightarrow> int \<Rightarrow>
     (error + 'b buffer option \<times> int) \<times> 'a batch list \<times> warning list" where
  "accumulate module num_examples capacity [] processed pos =
     (Inr (processed, pos), [],
      (if loop_test num_examples pos
       then (case num_examples of None \<Rightarrow> [] | Some k \<Rightarrow> [NotReaching k pos])
       else []))"
| "accumulate module num_examples capacity (imgs # rest) processed pos =
     (if loop_test num_examples pos
      then
        let n_imgs = (case num_examples of
                        Some k \<Rightarrow> min (int (length imgs)) (k - pos)
                      | None \<Rightarrow> int (length imgs))
        in if n_imgs = 0 then (Inl RuntimeError, rest, [])
           else
             let computed = map (\<lambda>x. Some (module x)) (take (nat n_imgs) imgs)
             in case (case processed of
                        Some p \<Rightarrow> Inr p
                      | None \<Rightarrow> (case num_examples of
                                   Some k \<Rightarrow> torch_empty capacity k
                                 | None \<Rightarrow> Inr [])) of
                  Inl e \<Rightarrow> (Inl e, rest, [])
                | Inr processed0 \<Rightarrow>
                    (case (case num_examples of
                             Some k \<Rightarrow> Inr (slice_assign processed0 pos computed)
                           | None \<Rightarrow> torch_cat capacity processed0 computed) of
                       Inl e \<Rightarrow> (Inl e, rest, [])
                     | Inr processed1 \<Rightarrow>
                         accumulate module num_examples capacity rest (Some processed1)
                           (pos + n_imgs))
      else (Inr (processed, pos), imgs # rest, []))"

text \<open>
  One turn of \<open>for module in modules\<close>: the loop, the test \<open>processed is None\<close>, and the
  truncation \<open>processed[:pos]\<close>. When the iterator is \<open>None\<close>, a \<open>DataLoader\<close> or an
  iterable without \<open>__next__\<close>, the first \<open>next\<close> raises \<open>TypeError\<close> (line 66); when the
  loop is not entered at all, \<open>processed\<close> is \<open>None\<close>. The result is the matrix handed to
  \<open>Percentile\<close>, with the iterator left for the next module and the warnings.
\<close>

fun sketch_rows ::
  "('a \<Rightarrow> 'b) \<Rightarrow> int \<Rightarrow> 'a data_iterator option \<Rightarrow> int option \<Rightarrow>
     (error + 'b buffer) \<times> 'a data_iterator option \<times> warning list" where
  "sketch_rows module capacity (Some (PyIterator it)) num_examples =
     (case accumulate module num_examples capacity it None 0 of
        (Inl e, rest, ws) \<Rightarrow> (Inl e, Some (PyIterator rest), ws)
      | (Inr (None, pos), rest, ws) \<Rightarrow> (Inl EmptySourceError, Some (PyIterator rest), ws)
      | (Inr (Some processed, pos), rest, ws) \<Rightarrow>
          (Inr (take (nat pos) processed), Some (PyIterator rest), ws))"
| "sketch_rows module capacity data_iterator num_examples =
     (if loop_test num_examples 0 then (Inl TypeError, data_iterator, [])
      else (Inl EmptySourceError, data_iterator, []))"

text \<open>
  \<open>sketch\<close> takes one module or an iterable of modules, and answers in kind
  (\<open>sketches[0] if not iterable else sketches\<close>).
\<close>

datatype 'm modules_arg = Single 'm | Many "'m list"

datatype 'q sketches = One 'q | Several "'q list"

text \<open>
  The loop over the modules shares one iterator: each module goes on where the one before
  stopped. \<open>percentile\<close> stands for \<open>Percentile()(processed, percentiles).float()\<close>, an
  external collaborator.
\<close>

fun sketch_modules ::
  "('b buffer \<Rightarrow> 'p \<Rightarrow> 'q) \<Rightarrow> int \<Rightarrow> ('a \<Rightarrow> 'b) list \<Rightarrow> 'a data_iterator option \<Rightarrow> 'p \<Rightarrow>
     int option \<Rightarrow> (error + 'q list) \<times> 'a data_iterator option \<times> warning list" where
  "sketch_modules percentile capacity [] data_iterator percentiles num_examples =
     (Inr [], data_iterator, [])"
| "sketch_modules percentile capacity (module # modules) data_iterator percentiles num_examples =
     (case sketch_rows module capacity data_iterator num_examples of
        (Inl e, rest, ws) \<Rightarrow> (Inl e, rest, ws)
      | (Inr processed, rest, ws) \<Rightarrow>
          (case sketch_modules percentile capacity modules rest percentiles num_examples of
             (Inl e, rest', ws') \<Rightarrow> (Inl e, rest', ws @ ws')
           | (Inr sketches, rest', ws') \<Rightarrow>
               (Inr (percentile processed percentiles # sketches), rest', ws @ ws')))"

definition sketch ::
  "('b buffer \<Rightarrow> 'p \<Rightarrow> 'q) \<Rightarrow> int \<Rightarrow> ('a \<Rightarrow> 'b) modules_arg \<Rightarrow> 'a data_source option \<Rightarrow> 'p \<Rightarrow>
     int option \<Rightarrow> (error + 'q sketches) \<times> 'a data_iterator option \<times> warning list" where
  "sketch percentile capacity modules data percentiles num_examples =
     (case to_iterator data of
        Inl e \<Rightarrow> (Inl e, None, [])
      | Inr data_iterator \<Rightarrow>
          (case modules of
             Single module \<Rightarrow>
               (case sketch_modules percentile capacity [module] data_iterator percentiles
                       num_examples of
                  (Inl e, rest, ws) \<Rightarrow> (Inl e, rest, ws)
                | (Inr [], rest, ws) \<Rightarrow> (Inl IndexError, rest, ws)
                | (Inr (q # qs), rest, ws) \<Rightarrow> (Inr (One q), rest, ws))
           | Many ms \<Rightarrow>
               (case sketch_modules percentile capacity ms data_iterator percentiles
                       num_examples of
                  (Inl e, rest, ws) \<Rightarrow> (Inl e, rest, ws)
                | (Inr sketches, rest, ws) \<Rightarrow> (Inr (Several sketches), rest, ws))))"

section \<open>The coordinator's on-demand operation (\<open>Sketcher.__init__\<close>, \<open>Sketcher.__call__\<close>)\<close>

text \<open>The fields of a \<open>Sketcher\<close> that the on-demand operation reads.\<close>

record ('a, 'p) sketcher =
  data_iterator :: "'a data_iterator option"
  percentiles :: 'p
  num_examples :: "int option"

definition new_sketcher ::
  "'a data_source option \<Rightarrow> 'p \<Rightarrow> int option \<Rightarrow> error + ('a, 'p) sketcher" where
  "new_sketcher data_source pcts n =
     (case to_iterator data_source of
        Inl e \<Rightarrow> Inl e
      | Inr it \<Rightarrow> Inr \<lparr>data_iterator = it, percentiles = pcts, num_examples = n\<rparr>)"

text \<open>
  \<open>__call__(modules, data=None, percentiles=None)\<close>. What \<open>to_iterator\<close> has made of the
  data, or the stored iterator, is handed to \<open>sketch\<close>, which sends it through
  \<open>to_iterator\<close> once more; what the call leaves of the stored iterator is stored back,
  since the object is shared.
\<close>

definition call ::
  "('b buffer \<Rightarrow> 'p \<Rightarrow> 'q) \<Rightarrow> int \<Rightarrow> ('a, 'p) sketcher \<Rightarrow> ('a \<Rightarrow> 'b) modules_arg \<Rightarrow>
     'a data_source option \<Rightarrow> 'p option \<Rightarrow>
     (error + 'q sketches) \<times> ('a, 'p) sketcher \<times> warning list" where
  "call percentile capacity self modules data pcts =
     (let pcts' = (case pcts of None \<Rightarrow> percentiles self | Some p \<Rightarrow> p) in
      case data of
        None \<Rightarrow>
          (case data_iterator self of
             None \<Rightarrow> (Inl NoDefaultDataError, self, [])
           | Some it \<Rightarrow>
               (case sketch percentile capacity modules (Some (as_source it)) pcts'
                       (num_examples self) of
                  (r, rest, ws) \<Rightarrow> (r, self\<lparr>data_iterator := rest\<rparr>, ws)))
      | Some d \<Rightarrow>
          (case to_iterator (Some d) of
             Inl e \<Rightarrow> (Inl e, self, [])
           | Inr it \<Rightarrow>
               (case sketch percentile capacity modules (map_option as_source it) pcts' None of
                  (r, rest, ws) \<Rightarrow> (r, self, ws))))"

text \<open>\<open>__getitem__\<close>: the call with every default.\<close>

definition getitem ::
  "('b buffer \<Rightarrow> 'p \<Rightarrow> 'q) \<Rightarrow> int \<Rightarrow> ('a, 'p) sketcher \<Rightarrow> ('a \<Rightarrow> 'b) modules_arg \<Rightarrow>
     (error + 'q sketches) \<times> ('a, 'p) sketcher \<times> warning list" where
  "getitem percentile capacity self modules = call percentile capacity self modules None None"

section \<open>Starting a stream (\<open>Sketcher.stream\<close>)\<close>

text \<open>
  The shared dictionary \<open>shared_data\<close>, one field per key. \<open>die\<close> tells whether the key
  \<open>'die'\<close> is present (the workers test \<open>'die' in shared_data\<close>, never its value).
\<close>

record shared_data =
  num_epochs :: int
  max_id :: int
  pause :: bool
  current_pick_epoch :: int
  current_put_epoch :: int
  current_sketch :: int
  done_in_current_epoch :: int
  num_sketches :: int
  sketch_list :: "int list option"
  die :: bool

text \<open>
  The collection of modules, as far as the stream looks at it: an object with a length that
  is not a \<open>ModulesDataset\<close> (a list of modules, say), or a \<open>ModulesDataset\<close>, which has
  no \<open>__len__\<close> and answers every integer index.
\<close>

datatype module_source = WithLen nat | ModulesDataset

text \<open>\<open>torch.iinfo(torch.int16).max\<close>\<close>

definition int16_max :: int where
  "int16_max = 32767"

text \<open>
  Randomness is an oracle \<open>rnd\<close>, a sequence of naturals; a draw in \<open>[0, high)\<close> is the
  oracle's value reduced modulo \<open>high\<close>, so that every oracle gives a possible outcome and
  every possible outcome comes from some oracle. \<open>torch.randint(low=0, high, size=(size,))\<close>
  raises on a negative size and on an empty range. \<open>.int()\<close> narrows each draw to 32 bits,
  two's complement.
\<close>

definition int32 :: "int \<Rightarrow> int" where
  "int32 x = (x + 2 ^ 31) mod 2 ^ 32 - 2 ^ 31"

definition randint :: "int \<Rightarrow> int \<Rightarrow> (nat \<Rightarrow> nat) \<Rightarrow> error + int list" where
  "randint high size_n rnd =
     (if size_n < 0 \<or> high \<le> 0 then Inl RuntimeError
      else Inr (map (\<lambda>i. int (rnd i mod nat high)) [0..<nat size_n]))"

text \<open>
  A number of the interpreter: an \<open>int\<close>, or a \<open>float\<close> holding an integral value (the only
  float here is \<open>1e7\<close>). \<open>min(a, b)\<close> and \<open>max(a, b)\<close> return their first argument
  unless the second is strictly smaller (larger).
\<close>

datatype pynumber = PyInt int | PyFloat int

fun py_value :: "pynumber \<Rightarrow> int" where
  "py_value (PyInt i) = i"
| "py_value (PyFloat i) = i"

definition py_min :: "pynumber \<Rightarrow> pynumber \<Rightarrow> pynumber" where
  "py_min a b = (if py_value b < py_value a then b else a)"

definition py_max :: "pynumber \<Rightarrow> pynumber \<Rightarrow> pynumber" where
  "py_max a b = (if py_value a < py_value b then b else a)"

text \<open>\<open>int(x / 2)\<close>: the quotient rounded towards zero.\<close>

definition int_half :: "int \<Rightarrow> int" where
  "int_half x = (if 0 \<le> x then x div 2 else - ((- x) div 2))"

text \<open>
  The number of workers, from the argument \<open>num_workers\<close> and \<open>mp.cpu_count()\<close>:
  \<^verbatim>\<open>
  if num_workers < 0 or num_workers is None:
      num_workers = 1e7
      num_workers = max(1, min(num_workers, int((mp.cpu_count()-1)/2)))
  \<close>
\<close>

definition pick_num_workers :: "int \<Rightarrow> int \<Rightarrow> pynumber" where
  "pick_num_workers num_workers cpu_count =
     (if num_workers < 0
      then py_max (PyInt 1) (py_min (PyFloat 10000000) (PyInt (int_half (cpu_count - 1))))
      else PyInt num_workers)"

text \<open>
  A message of the output queue: \<open>(target_qf, sketch_id)\<close>, or the sentinel \<open>None\<close> that
  closes an epoch.
\<close>

datatype 'q message = Item 'q int | Terminator

text \<open>
  Where a worker stands in \<open>sketch_worker\<close>:
  \<^item> \<open>AtLoopHead\<close>: about to read \<open>pause\<close> (line 304);
  \<^item> \<open>AtClaim\<close>: about to take the lock and claim a slot (lines 315 to 360);
  \<^item> \<open>AtDrain\<close>: \<open>worker_dying\<close>, spinning on \<open>queue.empty()\<close> (line 368);
  \<^item> \<open>AtCompute\<close>: about to compute the sketch (lines 380, 381);
  \<^item> \<open>AtWaitTurn\<close>: in the \<open>can_put\<close> loop (lines 387 to 400);
  \<^item> \<open>AtPutItem\<close>: about to put its item (line 404);
  \<^item> \<open>AtCount\<close>: item put, about to take the lock and count it (lines 407 to 412);
  \<^item> \<open>AtPutSentinel\<close>: holding the lock, about to put the sentinel (lines 415 to 417);
  \<^item> \<open>AtDieCheck\<close>: about to test \<open>'die' in shared_data\<close> (line 419);
  \<^item> \<open>AtPauseCheck\<close>: about to read \<open>pause\<close> again (line 426);
  \<^item> \<open>Parked\<close>: in one of the loops \<open>while True: time.sleep(10)\<close>;
  \<^item> \<open>Crashed\<close>: ended by an exception.
\<close>

datatype pc =
    AtLoopHead | AtClaim | AtDrain | AtCompute | AtWaitTurn | AtPutItem | AtCount
  | AtPutSentinel | AtDieCheck | AtPauseCheck | Parked | Crashed

text \<open>The local variables of a worker: \<open>id\<close>, \<open>sketch_id\<close>, \<open>epoch\<close>, \<open>target_qf\<close>.\<close>

record 'q worker =
  pc :: pc
  id_picked :: int
  sketch_id :: int
  epoch :: int
  target_qf :: "'q option"

definition new_worker :: "'q worker" where
  "new_worker = \<lparr>pc = AtLoopHead, id_picked = 0, sketch_id = 0, epoch = 0, target_qf = None\<rparr>"

text \<open>
  The whole of a running stream. The queue is kept as the sequence of all messages put so
  far, in the order of the \<open>put\<close> calls (\<open>queue_log\<close>), with the number of messages put and
  not yet taken (\<open>queue_size\<close>) and the bound given to \<open>mp.Queue\<close> (\<open>queue_maxsize\<close>; a bound
  of 0 or less means no bound). \<open>lock\<close> tells whether \<open>sketcher.lock\<close> is held.
\<close>

record 'q stream_state =
  shared :: shared_data
  modules_of :: module_source
  queue_log :: "'q message list"
  queue_size :: nat
  queue_maxsize :: int
  lock :: bool
  workers :: "'q worker list"

text \<open>
  \<open>stream(modules, num_sketches, num_epochs, num_workers, max_id)\<close>, with the machine's
  \<open>cpu_count\<close> and the oracle for the first \<open>sketch_list\<close>. A float for the number of workers
  is refused by \<open>mp.Queue\<close> (and by \<open>range\<close>) with a \<open>TypeError\<close>, before any worker is
  started. The stop of an earlier stream touches only that stream's dictionary.
\<close>

definition stream ::
  "module_source \<Rightarrow> int \<Rightarrow> int \<Rightarrow> int \<Rightarrow> int option \<Rightarrow> int \<Rightarrow> (nat \<Rightarrow> nat) \<Rightarrow>
     error + 'q stream_state" where
  "stream modules n_sketches n_epochs n_workers maxid cpu_count rnd =
     (case pick_num_workers n_workers cpu_count of
        PyFloat x \<Rightarrow> Inl TypeError
      | PyInt nw \<Rightarrow>
          let max_id' = (case maxid of
                           None \<Rightarrow> (case modules of WithLen n \<Rightarrow> int n | ModulesDataset \<Rightarrow> int16_max)
                         | Some m \<Rightarrow> m);
              num_sketches' = (if n_sketches > 0 then n_sketches else - 1)
          in case (if n_sketches = - 1 then Inr None
                   else map_sum (\<lambda>e. e) (\<lambda>l. Some (map int32 l)) (randint max_id' num_sketches' rnd)) of
               Inl e \<Rightarrow> Inl e
             | Inr sl \<Rightarrow>
                 Inr \<lparr>shared = \<lparr>num_epochs = n_epochs, max_id = max_id', pause = False,
                                current_pick_epoch = 0, current_put_epoch = 0,
                                current_sketch = 0, done_in_current_epoch = 0,
                                num_sketches = num_sketches', sketch_list = sl, die = False\<rparr>,
                      modules_of = modules,
                      queue_log = [],
                      queue_size = 0,
                      queue_maxsize = 2 * nw,
                      lock = False,
                      workers = replicate (nat nw) new_worker\<rparr>)"

section \<open>The worker protocol (\<open>sketch_worker\<close>)\<close>

text \<open>Indexing a list or a tensor by an integer: negative indices count from the end.\<close>

definition py_index :: "'a list \<Rightarrow> int \<Rightarrow> error + 'a" where
  "py_index xs i =
     (let n = int (length xs)
      in if 0 \<le> i \<and> i < n then Inr (xs ! nat i)
         else if - n \<le> i \<and> i < 0 then Inr (xs ! nat (n + i))
         else Inl IndexError)"

text \<open>\<open>modules[sketch_id]\<close>: a sized collection refuses an index out of range.\<close>

definition get_module :: "module_source \<Rightarrow> int \<Rightarrow> error + unit" where
  "get_module modules i =
     (case modules of
        WithLen n \<Rightarrow> (if - int n \<le> i \<and> i < int n then Inr () else Inl IndexError)
      | ModulesDataset \<Rightarrow> Inr ())"

text \<open>
  The section under the lock at lines 315 to 360. It returns the dictionary as the section
  leaves it, and either the exception that ended the section or the locals \<open>id\<close>,
  \<open>sketch_id\<close>, \<open>epoch\<close> and \<open>worker_dying\<close>. Without a list (\<open>num_sketches == -1\<close>) the
  id is drawn below \<open>len(modules)\<close> when the modules have a length and below
  \<open>torch.iinfo(torch.int16).max\<close> otherwise. When the new list cannot be drawn, the two
  assignments before it have been made.
\<close>

definition claim ::
  "module_source \<Rightarrow> (nat \<Rightarrow> nat) \<Rightarrow> shared_data \<Rightarrow>
     shared_data \<times> (error + int \<times> int \<times> int \<times> bool)" where
  "claim modules rnd sh =
     (let id_p = current_sketch sh
      in case (if num_sketches sh = - 1
               then (let max_draw = (case modules of
                                       WithLen n \<Rightarrow> int n
                                     | ModulesDataset \<Rightarrow> int16_max)
                     in case randint max_draw 1 rnd of
                          Inl e \<Rightarrow> Inl e
                        | Inr l \<Rightarrow> py_index l 0)
               else (case sketch_list sh of
                       None \<Rightarrow> Inl TypeError
                     | Some l \<Rightarrow> py_index l id_p)) of
           Inl e \<Rightarrow> (sh, Inl e)
         | Inr sid \<Rightarrow>
             let ep = current_pick_epoch sh
             in if ep \<ge> num_epochs sh then (sh, Inr (id_p, sid, ep, True))
                else if id_p = num_sketches sh - 1
                then (let sh1 = sh\<lparr>current_sketch := 0,
                                     current_pick_epoch := current_pick_epoch sh + 1\<rparr>
                      in case randint (max_id sh1) (num_sketches sh1) rnd of
                           Inl e \<Rightarrow> (sh1, Inl e)
                         | Inr l \<Rightarrow> (sh1\<lparr>sketch_list := Some (map int32 l)\<rparr>,
                                     Inr (id_p, sid, ep, False)))
                else (sh\<lparr>current_sketch := current_sketch sh + 1\<rparr>,
                      Inr (id_p, sid, ep, False)))"

definition set_worker :: "'q stream_state \<Rightarrow> nat \<Rightarrow> 'q worker \<Rightarrow> 'q stream_state" where
  "set_worker s i w = s\<lparr>workers := (workers s)[i := w]\<rparr>"

text \<open>\<open>queue.put\<close> blocks while the queue is full.\<close>

definition queue_full :: "'q stream_state \<Rightarrow> bool" where
  "queue_full s = (0 < queue_maxsize s \<and> queue_maxsize s \<le> int (queue_size s))"

definition put :: "'q message \<Rightarrow> 'q stream_state \<Rightarrow> 'q stream_state" where
  "put m s = s\<lparr>queue_log := queue_log s @ [m], queue_size := Suc (queue_size s)\<rparr>"

text \<open>
  One step of worker \<open>i\<close>, from where it stands. \<open>rnd\<close> is the oracle for the draws of the
  step; \<open>outcome\<close> is what computing the sketch gives (\<open>sketcher[module]\<close>: a sketch, or an
  exception). \<open>None\<close> means that the worker cannot move: it waits for the lock or for room in
  the queue, or it is parked or gone. A section under the lock that cannot block is one step;
  the counting section stops with the lock held before the sentinel is put, since that
  \<open>put\<close> may block. An exception inside a section leaves the lock held (\<open>getlock\<close> releases
  after its \<open>yield\<close> without a \<open>finally\<close>).
\<close>

definition worker_step ::
  "(nat \<Rightarrow> nat) \<Rightarrow> error + 'q \<Rightarrow> nat \<Rightarrow> 'q stream_state \<Rightarrow> 'q stream_state option" where
  "worker_step rnd outcome i s =
     (if length (workers s) \<le> i then None
      else
        let w = workers s ! i; sh = shared s
        in case pc w of
             AtLoopHead \<Rightarrow>
               Some (set_worker s i (w\<lparr>pc := (if pause sh then AtDieCheck else AtClaim)\<rparr>))
           | AtClaim \<Rightarrow>
               (if lock s then None
                else case claim (modules_of s) rnd sh of
                       (sh', Inl e) \<Rightarrow>
                         Some (set_worker (s\<lparr>shared := sh', lock := True\<rparr>) i (w\<lparr>pc := Crashed\<rparr>))
                     | (sh', Inr (id_p, sid, ep, dying)) \<Rightarrow>
                         Some (set_worker (s\<lparr>shared := sh'\<rparr>) i
                                 (w\<lparr>pc := (if dying then AtDrain else AtCompute),
                                    id_picked := id_p, sketch_id := sid, epoch := ep\<rparr>)))
           | AtDrain \<Rightarrow>
               Some (set_worker s i (w\<lparr>pc := (if queue_size s = 0 then Parked else AtDrain)\<rparr>))
           | AtCompute \<Rightarrow>
               (case get_module (modules_of s) (sketch_id w) of
                  Inl e \<Rightarrow> Some (set_worker s i (w\<lparr>pc := Crashed\<rparr>))
                | Inr u \<Rightarrow>
                    (case outcome of
                       Inl e \<Rightarrow> Some (set_worker s i (w\<lparr>pc := Crashed\<rparr>))
                     | Inr q \<Rightarrow> Some (set_worker s i (w\<lparr>pc := AtWaitTurn, target_qf := Some q\<rparr>))))
           | AtWaitTurn \<Rightarrow>
               (if lock s then None
                else Some (set_worker s i
                             (w\<lparr>pc := (if current_put_epoch sh = epoch w then AtPutItem
                                        else if die sh then Parked
                                        else AtWaitTurn)\<rparr>)))
           | AtPutItem \<Rightarrow>
               (if queue_full s then None
                else case target_qf w of
                       None \<Rightarrow> None
                     | Some q \<Rightarrow>
                         Some (set_worker (put (Item q (sketch_id w)) s) i (w\<lparr>pc := AtCount\<rparr>)))
           | AtCount \<Rightarrow>
               (if lock s then None
                else
                  let sh' = sh\<lparr>done_in_current_epoch := done_in_current_epoch sh + 1\<rparr>
                  in if done_in_current_epoch sh' = num_sketches sh'
                     then Some (set_worker (s\<lparr>shared := sh', lock := True\<rparr>) i
                                  (w\<lparr>pc := AtPutSentinel\<rparr>))
                     else Some (set_worker (s\<lparr>shared := sh'\<rparr>) i (w\<lparr>pc := AtDieCheck\<rparr>)))
           | AtPutSentinel \<Rightarrow>
               (if queue_full s then None
                else Some (set_worker
                             ((put Terminator s)
                                \<lparr>shared := sh\<lparr>done_in_current_epoch := 0,
                                               current_put_epoch := current_put_epoch sh + 1\<rparr>,
                                 lock := False\<rparr>)
                             i (w\<lparr>pc := AtDieCheck\<rparr>)))
           | AtDieCheck \<Rightarrow>
               Some (set_worker s i (w\<lparr>pc := (if die sh then Parked else AtPauseCheck)\<rparr>))
           | AtPauseCheck \<Rightarrow> Some (set_worker s i (w\<lparr>pc := AtLoopHead\<rparr>))
           | Parked \<Rightarrow> None
           | Crashed \<Rightarrow> None)"

text \<open>
  What can happen to a running stream: a step of a worker, the consumer taking a message
  (\<open>queue.get\<close>), and the coordinator's \<open>pause\<close>, \<open>resume\<close> and \<open>stop\<close>.
\<close>

datatype 'q event =
    WorkerStep nat "nat \<Rightarrow> nat" "error + 'q"
  | Consume
  | CallPause
  | CallResume
  | CallStop

fun step :: "'q event \<Rightarrow> 'q stream_state \<Rightarrow> 'q stream_state option" where
  "step (WorkerStep i rnd outcome) s = worker_step rnd outcome i s"
| "step Consume s =
     (if queue_size s = 0 then None else Some (s\<lparr>queue_size := queue_size s - 1\<rparr>))"
| "step CallPause s = Some (s\<lparr>shared := (shared s)\<lparr>pause := True\<rparr>\<rparr>)"
| "step CallResume s = Some (s\<lparr>shared := (shared s)\<lparr>pause := False\<rparr>\<rparr>)"
| "step CallStop s = Some (s\<lparr>shared := (shared s)\<lparr>die := True\<rparr>\<rparr>)"

text \<open>An interleaving is a list of events; it runs as long as each event can happen.\<close>

fun run :: "'q event list \<Rightarrow> 'q stream_state \<Rightarrow> 'q stream_state option" where
  "run [] s = Some s"
| "run (e # es) s = (case step e s of None \<Rightarrow> None | Some s' \<Rightarrow> run es s')"

text \<open>
  The sizes of the epochs in a sequence of messages: the number of items before each
  terminator, counted from the terminator before, and the number of items after the last
  terminator. \<open>k\<close> counts the items of the epoch being read.
\<close>

fun epoch_sizes :: "nat \<Rightarrow> 'q message list \<Rightarrow> nat list \<times> nat" where
  "epoch_sizes k [] = ([], k)"
| "epoch_sizes k (Item q i # ms) = epoch_sizes (Suc k) ms"
| "epoch_sizes k (Terminator # ms) = (case epoch_sizes 0 ms of (bs, t) \<Rightarrow> (k # bs, t))"

section \<open>Example instances\<close>

text \<open>A module and a percentile function to run the definitions on: the module doubles a
  sample, the percentile function hands back the matrix it is given.\<close>

definition example_module :: "nat \<Rightarrow> nat" where
  "example_module x = 2 * x"

definition example_percentile :: "nat buffer \<Rightarrow> unit \<Rightarrow> nat buffer" where
  "example_percentile rows p = rows"


text \<open>A machine that can allocate a tensor of a thousand million rows.\<close>

definition example_capacity :: int where
  "example_capacity = 1000000000"

text \<open>An oracle whose every draw is \<open>v\<close>.\<close>

definition example_draw :: "nat \<Rightarrow> nat \<Rightarrow> nat" where
  "example_draw v i = v"

text \<open>
  An interleaving for one worker that completes an epoch of two items: the worker claims,
  computes, puts and counts its first item, then its second; the consumer takes one message
  to make room in the queue of two; the worker counts, and puts the sentinel.
\<close>

definition example_step :: "nat event" where
  "example_step = WorkerStep 0 (example_draw 5) (Inr 7)"

definition example_epoch :: "nat event list" where
  "example_epoch =
     [example_step, example_step, example_step, example_step,
      example_step, example_step, example_step, example_step,
      example_step, example_step, example_step, example_step, example_step,
      Consume, example_step, example_step]"

section \<open>What the protocol keeps true\<close>

text \<open>
  A worker holds a slot of epoch \<open>e\<close> from the moment it has claimed it until it has counted
  its item: it computes, waits for its turn, puts its item, or is about to count it.
\<close>

definition holding :: "int \<Rightarrow> 'q worker \<Rightarrow> bool" where
  "holding e w =
     ((pc w = AtCompute \<or> pc w = AtWaitTurn \<or> pc w = AtPutItem \<or> pc w = AtCount) \<and> epoch w = e)"

definition at_count :: "'q worker \<Rightarrow> bool" where
  "at_count w = (pc w = AtCount)"

definition at_sentinel :: "'q worker \<Rightarrow> bool" where
  "at_sentinel w = (pc w = AtPutSentinel)"

definition count_workers :: "('q worker \<Rightarrow> bool) \<Rightarrow> 'q stream_state \<Rightarrow> int" where
  "count_workers P s = int (length (filter P (workers s)))"

text \<open>
  The slots of epoch \<open>e\<close> handed out so far: all of them for an epoch before the pick epoch,
  \<open>current_sketch\<close> for the pick epoch, none for a later one.
\<close>

definition claimed :: "shared_data \<Rightarrow> int \<Rightarrow> int" where
  "claimed sh e =
     (if e < current_pick_epoch sh then num_sketches sh
      else if e = current_pick_epoch sh then current_sketch sh
      else 0)"

definition inv_counters :: "shared_data \<Rightarrow> bool" where
  "inv_counters sh =
     (0 < num_sketches sh \<and> 0 \<le> current_sketch sh \<and> current_sketch sh < num_sketches sh
      \<and> 0 \<le> done_in_current_epoch sh
      \<and> 0 \<le> current_put_epoch sh \<and> current_put_epoch sh \<le> current_pick_epoch sh)"

text \<open>
  The workers holding a slot of an epoch, with the items already counted when it is the put
  epoch, are never more than the slots handed out for that epoch.
\<close>

definition inv_slots :: "'q stream_state \<Rightarrow> bool" where
  "inv_slots s =
     (\<forall>e. count_workers (holding e) s
            + (if e = current_put_epoch (shared s) then done_in_current_epoch (shared s) else 0)
          \<le> claimed (shared s) e)"

text \<open>A worker that puts or has just put its item works for the put epoch.\<close>

definition inv_turn :: "'q stream_state \<Rightarrow> bool" where
  "inv_turn s =
     (\<forall>w \<in> set (workers s).
        pc w = AtPutItem \<or> pc w = AtCount \<longrightarrow> epoch w = current_put_epoch (shared s))"

text \<open>
  At most one worker is about to put the sentinel; it holds the lock, and the epoch is
  complete.
\<close>

definition inv_sentinel :: "'q stream_state \<Rightarrow> bool" where
  "inv_sentinel s =
     (count_workers at_sentinel s \<le> 1
      \<and> (1 \<le> count_workers at_sentinel s \<longrightarrow>
            lock s \<and> done_in_current_epoch (shared s) = num_sketches (shared s)))"

text \<open>
  The messages put so far: one closed epoch of \<open>num_sketches\<close> items for each put epoch
  passed, then the items of the put epoch, counted or about to be counted.
\<close>

definition inv_log :: "'q stream_state \<Rightarrow> bool" where
  "inv_log s =
     (epoch_sizes 0 (queue_log s) =
        (replicate (nat (current_put_epoch (shared s))) (nat (num_sketches (shared s))),
         nat (done_in_current_epoch (shared s) + count_workers at_count s)))"

definition bounded_inv :: "'q stream_state \<Rightarrow> bool" where
  "bounded_inv s =
     (inv_counters (shared s) \<and> inv_slots s \<and> inv_turn s \<and> inv_sentinel s \<and> inv_log s)"

text \<open>Without a list (\<open>num_sketches = -1\<close>) neither epoch counter ever moves.\<close>

definition unbounded_inv :: "'q stream_state \<Rightarrow> bool" where
  "unbounded_inv s =
     (num_sketches (shared s) = - 1
      \<and> current_put_epoch (shared s) = 0 \<and> current_pick_epoch (shared s) = 0
      \<and> 0 \<le> current_sketch (shared s) \<and> 0 \<le> done_in_current_epoch (shared s)
      \<and> (\<forall>w \<in> set (workers s). pc w \<noteq> AtPutSentinel))"

section \<open>Properties of the quantile sketch routine\<close>

lemma slice_assign_Nil: "nat pos \<le> length p \<Longrightarrow> slice_assign p pos [] = p"
  by (simp add: slice_assign_def)

lemma length_slice_assign:
  "nat pos + length c \<le> length p \<Longrightarrow> length (slice_assign p pos c) = length p"
  by (simp add: slice_assign_def)

lemma slice_assign_twice:
  "0 \<le> pos \<Longrightarrow> nat pos + length a \<le> length p \<Longrightarrow>
   slice_assign (slice_assign p pos a) (pos + int (length a)) b = slice_assign p pos (a @ b)"
  by (simp add: slice_assign_def nat_add_distrib ac_simps)

lemma take_slice_assign:
  "nat pos + length c \<le> length p \<Longrightarrow>
   take (nat pos + length c) (slice_assign p pos c) = take (nat pos) p @ c"
  by (simp add: slice_assign_def)

text \<open>one turn of the loop with a budget and a buffer already allocated\<close>

lemma accumulate_Some_step:
  assumes "pos < k"
  shows "accumulate f (Some k) cap (imgs # rest) (Some p) pos =
     (if imgs = [] then (Inl RuntimeError, rest, [])
      else accumulate f (Some k) cap rest
             (Some (slice_assign p pos
                      (map (\<lambda>x. Some (f x)) (take (nat (min (int (length imgs)) (k - pos))) imgs))))
             (pos + min (int (length imgs)) (k - pos)))"
proof (cases "imgs = []")
  case True
  with assms show ?thesis by (simp add: loop_test_def)
next
  case False
  then have "min (int (length imgs)) (k - pos) \<noteq> 0" using assms by (simp add: min_def)
  with assms False show ?thesis by (simp add: loop_test_def Let_def)
qed

lemma accumulate_Some_partial:
  "0 \<le> pos \<Longrightarrow> pos \<le> k \<Longrightarrow> length p = nat k \<Longrightarrow>
   accumulate f (Some k) cap it (Some p) pos = (Inr r, rest, ws) \<Longrightarrow>
   r = (Some (slice_assign p pos (map (\<lambda>x. Some (f x)) (take (nat (k - pos)) (concat it)))),
        min k (pos + int (length (concat it))))
   \<and> ws = (if pos + int (length (concat it)) < k
           then [NotReaching k (pos + int (length (concat it)))] else [])
   \<and> (pos + int (length (concat it)) < k \<longrightarrow> rest = [])"
proof (induction it arbitrary: p pos)
  case Nil
  then show ?case by (auto simp: loop_test_def slice_assign_Nil)
next
  case (Cons imgs rest0)
  show ?case
  proof (cases "pos < k")
    case False
    with Cons.prems have "pos = k" by simp
    with Cons.prems show ?thesis by (auto simp: loop_test_def slice_assign_Nil)
  next
    case True
    define n where "n = min (int (length imgs)) (k - pos)"
    define c where "c = map (\<lambda>x. Some (f x)) (take (nat n) imgs)"
    from Cons.prems(4) True have ne: "imgs \<noteq> []"
      by (auto simp: accumulate_Some_step simp del: accumulate.simps)
    have n0: "0 \<le> n" and nk: "pos + n \<le> k" using True by (auto simp: n_def)
    have lc: "int (length c) = n" using n0 by (auto simp: c_def n_def)
    have fit: "nat pos + length c \<le> length p"
      using Cons.prems nk lc n0 by (simp add: nat_add_distrib [symmetric] nat_le_iff)
    have step: "accumulate f (Some k) cap rest0 (Some (slice_assign p pos c)) (pos + n) =
                (Inr r, rest, ws)"
      using Cons.prems(4) True ne
      by (simp add: accumulate_Some_step n_def c_def del: accumulate.simps)
    have ih: "r = (Some (slice_assign (slice_assign p pos c) (pos + n)
               (map (\<lambda>x. Some (f x)) (take (nat (k - (pos + n))) (concat rest0)))),
               min k (pos + n + int (length (concat rest0))))
       \<and> ws = (if pos + n + int (length (concat rest0)) < k
           then [NotReaching k (pos + n + int (length (concat rest0)))] else [])
       \<and> (pos + n + int (length (concat rest0)) < k \<longrightarrow> rest = [])"
      using Cons.prems n0 nk fit step by (intro Cons.IH) (auto simp: length_slice_assign)
    have split: "take (nat (k - pos)) (imgs @ concat rest0) =
                 take (nat n) imgs @ take (nat (k - (pos + n))) (concat rest0)"
    proof -
      have "nat (k - pos) - length imgs = nat (k - (pos + int (length imgs)))" by arith
      then show ?thesis using True by (auto simp: n_def min_def)
    qed
    have rhs: "map (\<lambda>x. Some (f x)) (take (nat (k - pos)) (concat (imgs # rest0))) =
               c @ map (\<lambda>x. Some (f x)) (take (nat (k - (pos + n))) (concat rest0))"
      using split by (simp add: c_def del: take_append)
    have buf: "slice_assign (slice_assign p pos c) (pos + n)
               (map (\<lambda>x. Some (f x)) (take (nat (k - (pos + n))) (concat rest0))) =
          slice_assign p pos (map (\<lambda>x. Some (f x)) (take (nat (k - pos)) (concat (imgs # rest0))))"
      unfolding rhs using slice_assign_twice [OF Cons.prems(1) fit] lc by simp
    have m: "min k (pos + n + int (length (concat rest0))) =
             min k (pos + int (length (concat (imgs # rest0))))"
      by (auto simp: n_def min_def)
    have lt: "(pos + n + int (length (concat rest0)) < k) =
              (pos + int (length (concat (imgs # rest0))) < k)"
      by (auto simp: n_def min_def)
    have eq: "pos + int (length (concat (imgs # rest0))) < k \<Longrightarrow>
              pos + n + int (length (concat rest0)) = pos + int (length (concat (imgs # rest0)))"
      by (auto simp: n_def min_def)
    show ?thesis using ih buf m lt eq by auto
  qed
qed

lemma accumulate_Some_succeeds:
  "\<forall>b \<in> set it. b \<noteq> [] \<Longrightarrow> \<exists>r. fst (accumulate f (Some k) cap it (Some p) pos) = Inr r"
proof (induction it arbitrary: p pos)
  case Nil
  then show ?case by simp
next
  case (Cons imgs rest0)
  show ?case
  proof (cases "pos < k")
    case False
    then show ?thesis by (simp add: loop_test_def)
  next
    case True
    with Cons show ?thesis by (simp add: accumulate_Some_step del: accumulate.simps)
  qed
qed

lemma accumulate_None_partial:
  "accumulate f None cap it pr pos = (Inr r, rest, ws) \<Longrightarrow>
   r = ((if it = [] then pr
         else Some ((case pr of Some p \<Rightarrow> p | None \<Rightarrow> []) @ map (\<lambda>x. Some (f x)) (concat it))),
        pos + int (length (concat it)))
   \<and> rest = [] \<and> ws = []"
proof (induction it arbitrary: pr pos)
  case Nil
  then show ?case by (auto simp: loop_test_def)
next
  case (Cons imgs rest0)
  define p0 where "p0 = (case pr of Some p \<Rightarrow> p | None \<Rightarrow> [])"
  define c where "c = map (\<lambda>x. Some (f x)) imgs"
  from Cons.prems have ne: "imgs \<noteq> []"
    by (auto simp: loop_test_def Let_def split: if_splits)
  from Cons.prems ne have step:
    "accumulate f None cap rest0 (Some (p0 @ c)) (pos + int (length imgs)) = (Inr r, rest, ws)"
    by (cases pr)
      (auto simp: loop_test_def Let_def torch_cat_def p0_def c_def split: if_splits sum.splits)
  from Cons.IH [OF step] show ?case by (auto simp: p0_def c_def)
qed

lemma accumulate_errors:
  "fst (accumulate f ne cap it pr pos) = Inl e \<Longrightarrow> e = RuntimeError"
proof (induction it arbitrary: pr pos)
  case Nil
  then show ?case by simp
next
  case (Cons imgs rest0)
  then show ?case
    by (auto simp: Let_def torch_empty_def torch_cat_def
        split: if_splits sum.splits option.splits)
qed

lemma accumulate_Some_result:
  "fst (accumulate f ne cap it (Some p) pos) \<noteq> Inr (None, x)"
proof (induction it arbitrary: p pos)
  case Nil
  then show ?case by simp
next
  case (Cons imgs rest0)
  then show ?case
    by (auto simp: Let_def torch_cat_def split: if_splits sum.splits option.splits)
qed


text \<open>the first turn of the loop with a budget: the buffer is allocated\<close>

lemma accumulate_first_step:
  assumes "0 < k"
  shows "accumulate f (Some k) cap (imgs # rest) None 0 =
     (if imgs = [] \<or> cap < k then (Inl RuntimeError, rest, [])
      else accumulate f (Some k) cap rest
             (Some (slice_assign (replicate (nat k) None) 0
                      (map (\<lambda>x. Some (f x)) (take (nat (min (int (length imgs)) k)) imgs))))
             (min (int (length imgs)) k))"
proof (cases "imgs = []")
  case True
  with assms show ?thesis by (simp add: loop_test_def)
next
  case False
  then have "min (int (length imgs)) k \<noteq> 0" using assms by (simp add: min_def)
  with assms False show ?thesis by (simp add: loop_test_def Let_def torch_empty_def)
qed

lemma accumulate_no_batch:
  "it = [] \<or> \<not> loop_test ne pos \<Longrightarrow>
   fst (accumulate f ne cap it pr pos) = Inr (pr, pos)
   \<and> fst (snd (accumulate f ne cap it pr pos)) = it"
  by (cases it) auto

lemma accumulate_first_batch:
  "loop_test ne pos \<Longrightarrow> fst (accumulate f ne cap (imgs # rest) pr pos) \<noteq> Inr (None, x)"
  by (auto simp: Let_def torch_empty_def torch_cat_def accumulate_Some_result
      split: sum.splits option.splits)

lemma sketch_rows_budget_partial:
  assumes "sketch_rows f cap (Some (PyIterator it)) (Some k) = (Inr rows, rest, ws)"
  shows "rows = map (\<lambda>x. Some (f x)) (take (nat k) (concat it))
       \<and> ws = (if int (length (concat it)) < k
               then [NotReaching k (int (length (concat it)))] else [])
       \<and> (int (length (concat it)) < k \<longrightarrow> rest = Some (PyIterator []))"
proof -
  obtain res rest0 ws0 where a: "accumulate f (Some k) cap it None 0 = (res, rest0, ws0)"
    by (cases "accumulate f (Some k) cap it None 0") auto
  from assms a obtain processed pos where res: "res = Inr (Some processed, pos)"
    and rows: "rows = take (nat pos) processed"
    and rest: "rest = Some (PyIterator rest0)" and ws: "ws = ws0"
    by (auto split: sum.splits option.splits)
  have run: "it \<noteq> [] \<and> loop_test (Some k) 0"
  proof (rule ccontr)
    assume "\<not> (it \<noteq> [] \<and> loop_test (Some k) 0)"
    then have "it = [] \<or> \<not> loop_test (Some k) 0" by blast
    from accumulate_no_batch [OF this, of f cap None] a res show False by simp
  qed
  then have k: "0 < k" by (simp add: loop_test_def)
  from run obtain imgs rest1 where it: "it = imgs # rest1" by (cases it) auto
  define n where "n = min (int (length imgs)) k"
  define c where "c = map (\<lambda>x. Some (f x)) (take (nat n) imgs)"
  define p where "p = slice_assign (replicate (nat k) None) 0 c"
  from a res have ok: "\<not> (imgs = [] \<or> cap < k)"
    unfolding it accumulate_first_step [OF k] by (auto split: if_splits)
  have step: "accumulate f (Some k) cap rest1 (Some p) n = (Inr (Some processed, pos), rest0, ws0)"
    using a res ok unfolding it accumulate_first_step [OF k] by (simp add: n_def c_def p_def)
  have n0: "0 \<le> n" and nk: "n \<le> k" using k by (auto simp: n_def)
  have lc: "int (length c) = n" using n0 by (auto simp: c_def n_def)
  have fit: "nat 0 + length c \<le> length (replicate (nat k) None)"
    using lc nk by simp
  have lp: "length p = nat k" unfolding p_def using fit by (simp add: length_slice_assign)
  note r = accumulate_Some_partial [OF n0 nk lp step]
  have split: "take (nat k) (imgs @ concat rest1) =
               take (nat n) imgs @ take (nat (k - n)) (concat rest1)"
  proof -
    have "nat k - length imgs = nat (k - int (length imgs))" by arith
    then show ?thesis using k by (auto simp: n_def min_def)
  qed
  let ?all = "map (\<lambda>x. Some (f x)) (take (nat k) (concat it))"
  have rhs: "?all = c @ map (\<lambda>x. Some (f x)) (take (nat (k - n)) (concat rest1))"
    using split by (simp add: it c_def del: take_append)
  have "slice_assign p (0 + int (length c))
          (map (\<lambda>x. Some (f x)) (take (nat (k - n)) (concat rest1)))
        = slice_assign (replicate (nat k) None) 0
            (c @ map (\<lambda>x. Some (f x)) (take (nat (k - n)) (concat rest1)))"
    unfolding p_def using fit by (intro slice_assign_twice) auto
  then have buf: "processed = slice_assign (replicate (nat k) None) 0 ?all"
    using r lc rhs by simp
  have tot: "n + int (length (concat rest1)) < k \<longleftrightarrow> int (length (concat it)) < k"
    by (auto simp: it n_def min_def)
  have tot': "int (length (concat it)) < k \<Longrightarrow>
              n + int (length (concat rest1)) = int (length (concat it))"
    by (auto simp: it n_def min_def)
  have pos: "pos = min k (int (length (concat it)))"
    using r by (auto simp: it n_def min_def)
  have np: "nat pos = min (length (concat it)) (nat k)"
    unfolding pos using k by arith
  have "take (nat 0 + length ?all) (slice_assign (replicate (nat k) None) 0 ?all) =
        take (nat 0) (replicate (nat k) None) @ ?all"
    by (rule take_slice_assign) (use k in \<open>simp add: min_def\<close>)
  then have "rows = ?all" by (simp add: rows buf np)
  moreover have "ws = (if int (length (concat it)) < k
               then [NotReaching k (int (length (concat it)))] else [])"
    using r tot tot' by (auto simp: ws)
  moreover have "int (length (concat it)) < k \<longrightarrow> rest = Some (PyIterator [])"
    using r tot by (auto simp: rest)
  ultimately show ?thesis by blast
qed

lemma sketch_rows_budget_succeeds:
  assumes "0 < k" and "k \<le> cap" and "it \<noteq> []" and "\<forall>b \<in> set it. b \<noteq> []"
  shows "\<exists>rows rest ws. sketch_rows f cap (Some (PyIterator it)) (Some k) = (Inr rows, rest, ws)"
proof -
  from assms(3) obtain imgs rest1 where it: "it = imgs # rest1" by (cases it) auto
  with assms(4) have ne: "imgs \<noteq> []" and h: "\<forall>b \<in> set rest1. b \<noteq> []" by auto
  define p where "p = slice_assign (replicate (nat k) None) 0
         (map (\<lambda>x. Some (f x)) (take (nat (min (int (length imgs)) k)) imgs))"
  have step: "accumulate f (Some k) cap it None 0 =
        accumulate f (Some k) cap rest1 (Some p) (min (int (length imgs)) k)"
    unfolding it accumulate_first_step [OF assms(1)] using ne assms(2) by (simp add: p_def)
  from accumulate_Some_succeeds [OF h, of f k cap p "min (int (length imgs)) k"]
  obtain r where r: "fst (accumulate f (Some k) cap rest1 (Some p) (min (int (length imgs)) k)) = Inr r"
    by blast
  obtain pr pos where rp: "r = (pr, pos)" by (cases r) auto
  from r rp accumulate_Some_result [of f "Some k" cap rest1 p "min (int (length imgs)) k" pos]
  obtain processed where "pr = Some processed" by (cases pr) auto
  with r rp step show ?thesis
    by (cases "accumulate f (Some k) cap rest1 (Some p) (min (int (length imgs)) k)") auto
qed

lemma sketch_rows_unbounded_partial:
  assumes "sketch_rows f cap (Some (PyIterator it)) None = (Inr rows, rest, ws)"
  shows "rows = map (\<lambda>x. Some (f x)) (concat it) \<and> rest = Some (PyIterator []) \<and> ws = []"
proof -
  obtain res rest0 ws0 where a: "accumulate f None cap it None 0 = (res, rest0, ws0)"
    by (cases "accumulate f None cap it None 0") auto
  from assms a obtain processed pos where res: "res = Inr (Some processed, pos)"
    and rows: "rows = take (nat pos) processed"
    and rest: "rest = Some (PyIterator rest0)" and ws: "ws = ws0"
    by (auto split: sum.splits option.splits)
  from accumulate_None_partial [of f cap it None 0 "(Some processed, pos)" rest0 ws0] a res
  show ?thesis by (auto simp: rows rest ws split: if_splits)
qed

lemma sketch_rows_errors:
  "fst (sketch_rows f cap di ne) = Inl e \<Longrightarrow>
   e = TypeError \<or> e = EmptySourceError \<or> e = RuntimeError"
proof (cases di)
  case None
  assume "fst (sketch_rows f cap di ne) = Inl e"
  with None show ?thesis by (auto split: if_splits)
next
  case (Some x)
  assume e: "fst (sketch_rows f cap di ne) = Inl e"
  show ?thesis
  proof (cases x)
    case (PyIterator it)
    with e Some accumulate_errors [of f ne cap it None 0] show ?thesis
      by (cases "accumulate f ne cap it None 0") (auto split: sum.splits option.splits)
  next
    case (DataLoaderObj bs)
    with e Some show ?thesis by (auto split: if_splits)
  next
    case (IterableObj bs)
    with e Some show ?thesis by (auto split: if_splits)
  qed
qed

lemma sketch_rows_error_iff:
  "(fst (sketch_rows f cap (Some (PyIterator it)) ne) = Inl EmptySourceError) =
     (it = [] \<or> (\<exists>k. ne = Some k \<and> k \<le> 0))"
proof (cases "it = [] \<or> \<not> loop_test ne 0")
  case True
  from accumulate_no_batch [OF this, of f cap None]
  have "fst (sketch_rows f cap (Some (PyIterator it)) ne) = Inl EmptySourceError"
    by (cases "accumulate f ne cap it None 0") auto
  with True show ?thesis by (auto simp: loop_test_def split: option.splits)
next
  case False
  then obtain imgs rest where it: "it = imgs # rest" by (cases it) auto
  from False have nn: "fst (accumulate f ne cap it None 0) \<noteq> Inr (None, x)" for x
    unfolding it by (intro accumulate_first_batch) simp
  have "fst (sketch_rows f cap (Some (PyIterator it)) ne) \<noteq> Inl EmptySourceError"
    using nn accumulate_errors [of f ne cap it None 0]
    by (cases "accumulate f ne cap it None 0") (auto split: sum.splits option.splits)
  with False show ?thesis by (auto simp: loop_test_def split: option.splits)
qed

lemma sketch_Single:
  "to_iterator data = Inr di \<Longrightarrow>
   sketch percentile cap (Single f) data pcts ne =
     (case sketch_rows f cap di ne of
        (Inl e, rest, ws) \<Rightarrow> (Inl e, rest, ws)
      | (Inr rows, rest, ws) \<Rightarrow> (Inr (One (percentile rows pcts)), rest, ws))"
  by (simp add: sketch_def split: prod.splits sum.splits)

text \<open>
  Claim C5, as amended. For every budget \<open>num_examples = k\<close> with \<open>k \<ge> 1\<close> whose buffer of
  \<open>k\<close> rows the machine can allocate, and every data source that \<open>to_iterator\<close> turns into
  an iterator and whose batches, of any positive sizes, hold \<open>m \<ge> k\<close> samples in total, the
  matrix of one callable is the module's output on exactly the first \<open>k\<close> samples, in order:
  the clipping \<open>min(len(imgs), k - pos)\<close>, the loop test \<open>pos < k\<close> and the truncation
  \<open>processed[:pos]\<close> leave exactly \<open>k\<close> rows, none of them an unwritten row of the buffer.
  The sketch returned for a single module is \<open>Percentile\<close> of these rows, and no warning is
  emitted.
\<close>

theorem sketch_budget_exact:
  assumes "to_iterator data = Inr (Some (PyIterator it))"
    and "1 \<le> k" and "k \<le> int (length (concat it))"
    and "k \<le> capacity" and "\<forall>b \<in> set it. b \<noteq> []"
  shows "fst (sketch_rows module capacity (Some (PyIterator it)) (Some k)) =
           Inr (map (\<lambda>x. Some (module x)) (take (nat k) (concat it)))
       \<and> int (length (take (nat k) (concat it))) = k
       \<and> fst (sketch percentile capacity (Single module) data pcts (Some k)) =
           Inr (One (percentile (map (\<lambda>x. Some (module x)) (take (nat k) (concat it))) pcts))
       \<and> snd (snd (sketch percentile capacity (Single module) data pcts (Some k))) = []"
proof -
  have k: "0 < k" using assms(2) by simp
  have ne: "it \<noteq> []" using assms(2,3) by auto
  have len: "int (length (take (nat k) (concat it))) = k" using assms(2,3) by simp
  from sketch_rows_budget_succeeds [OF k assms(4) ne assms(5), of module]
  obtain rows rest ws where
    r: "sketch_rows module capacity (Some (PyIterator it)) (Some k) = (Inr rows, rest, ws)"
    by blast
  from sketch_rows_budget_partial [OF r] assms(3)
  have "rows = map (\<lambda>x. Some (module x)) (take (nat k) (concat it))" and "ws = []" by auto
  with r len show ?thesis by (simp add: sketch_Single [OF assms(1)])
qed

text \<open>
  Claim C5, witness: budget 3 on an iterator over the batches \<open>[1, 2]\<close> and \<open>[3, 4, 5]\<close>.
\<close>

theorem sketch_budget_exact_witness:
  "fst (sketch example_percentile example_capacity (Single example_module)
          (Some (IteratorSrc [[1, 2], [3, 4, 5]])) () (Some 3)) =
     Inr (One [Some 2, Some 4, Some 6])"
  using sketch_budget_exact [of "Some (IteratorSrc [[1, 2], [3, 4, 5]])" "[[1, 2], [3, 4, 5]]" 3
      example_capacity example_module example_percentile "()"]
  by (simp add: example_module_def example_percentile_def example_capacity_def)

text \<open>
  Claim C5, counterexample to the claim as stated. With budget \<open>k = 0\<close> and a source of
  \<open>m = 5 \<ge> k\<close> samples the loop is never entered, \<open>processed\<close> stays \<open>None\<close>, and the routine
  raises instead of computing a sketch from zero samples. With budget 2 and the batches \<open>[]\<close>
  and \<open>[1, 2, 3]\<close> (\<open>m = 3 \<ge> k\<close>) the empty batch ends the routine at \<open>view(0, -1)\<close>.
\<close>

theorem sketch_budget_zero_fails:
  "fst (sketch example_percentile example_capacity (Single example_module)
          (Some (IteratorSrc [[1, 2], [3, 4, 5]])) () (Some 0)) = Inl EmptySourceError
   \<and> fst (sketch example_percentile example_capacity (Single example_module)
          (Some (IteratorSrc [[], [1, 2, 3]])) () (Some 2)) = Inl RuntimeError"
  by (simp add: sketch_def loop_test_def)

text \<open>
  Claim C6, as amended. For every budget \<open>k\<close> whose buffer of \<open>k\<close> rows the machine can
  allocate, and every data source that \<open>to_iterator\<close> turns into an iterator, whose batches
  are all non-empty and which is exhausted after \<open>m\<close> samples with \<open>0 < m < k\<close>, the routine
  does not fail: for each callable, and for the routine called with a single module, it returns
  the sketch computed from exactly the \<open>m\<close> samples obtained (the buffer of \<open>k\<close> rows cut to
  its first \<open>m\<close>), leaves the iterator exhausted, and emits the one warning
  \<open>NotReaching k m\<close>.
\<close>

theorem sketch_source_exhausted_early:
  assumes "to_iterator data = Inr (Some (PyIterator it))"
    and "0 < length (concat it)" and "int (length (concat it)) < k"
    and "k \<le> capacity" and "\<forall>b \<in> set it. b \<noteq> []"
  shows "sketch_rows module capacity (Some (PyIterator it)) (Some k) =
           (Inr (map (\<lambda>x. Some (module x)) (concat it)),
            Some (PyIterator []),
            [NotReaching k (int (length (concat it)))])
       \<and> sketch percentile capacity (Single module) data pcts (Some k) =
           (Inr (One (percentile (map (\<lambda>x. Some (module x)) (concat it)) pcts)),
            Some (PyIterator []),
            [NotReaching k (int (length (concat it)))])"
proof -
  have k: "0 < k" using assms(2,3) by simp
  have ne: "it \<noteq> []" using assms(2) by auto
  have tk: "take (nat k) (concat it) = concat it" using assms(3) by simp
  from sketch_rows_budget_succeeds [OF k assms(4) ne assms(5), of module]
  obtain rows rest ws where
    r: "sketch_rows module capacity (Some (PyIterator it)) (Some k) = (Inr rows, rest, ws)"
    by blast
  from sketch_rows_budget_partial [OF r] assms(3) tk
  have "rows = map (\<lambda>x. Some (module x)) (concat it)"
    and "ws = [NotReaching k (int (length (concat it)))]"
    and "rest = Some (PyIterator [])"
    by auto
  with r show ?thesis by (simp add: sketch_Single [OF assms(1)])
qed

text \<open>
  Claim C6, witness: budget 5 on an iterator over 3 samples.
\<close>

theorem sketch_source_exhausted_early_witness:
  "sketch example_percentile example_capacity (Single example_module)
          (Some (IteratorSrc [[1, 2], [3]])) () (Some 5) =
     (Inr (One [Some 2, Some 4, Some 6]), Some (PyIterator []), [NotReaching 5 3])"
  using sketch_source_exhausted_early [of "Some (IteratorSrc [[1, 2], [3]])" "[[1, 2], [3]]" 5
      example_capacity example_module example_percentile "()"]
  by (simp add: example_module_def example_percentile_def example_capacity_def)

text \<open>
  Claim C6, counterexample to the claim as stated. A source exhausted after 2 samples whose
  last batch is empty, under budget 5, ends the routine at \<open>view(0, -1)\<close>; a source exhausted
  after 3 samples under the budget \<open>2^63 - 1\<close> ends it at \<open>torch.empty\<close>, which cannot
  allocate that many rows. In both the routine fails where the claim says it never does.
\<close>

theorem sketch_exhausted_early_failures:
  "fst (sketch example_percentile example_capacity (Single example_module)
          (Some (IteratorSrc [[1, 2], []])) () (Some 5)) = Inl RuntimeError
   \<and> fst (sketch example_percentile example_capacity (Single example_module)
          (Some (IteratorSrc [[1, 2], [3]])) () (Some 9223372036854775807)) = Inl RuntimeError"
  by (simp add: sketch_def loop_test_def Let_def torch_empty_def slice_assign_def
      example_capacity_def)

text \<open>
  Claim C7, the code at failing inputs: a \<open>DataLoader\<close> without batches, a \<open>Dataset\<close> without
  samples, an empty list. Each is a source that yields zero samples, and \<open>to_iterator\<close> hands
  back the loader or the list itself (lines 28 to 35), so that \<open>next\<close> at line 66 raises
  \<open>TypeError\<close>: the routine fails, but not with \<open>EmptySourceError\<close>. An exhausted iterator
  gives \<open>EmptySourceError\<close>, as the claim says.
\<close>

theorem sketch_empty_loader_type_error:
  "fst (sketch example_percentile example_capacity (Single example_module)
          (Some (DataLoaderSrc [])) () None) = Inl TypeError
   \<and> fst (sketch example_percentile example_capacity (Single example_module)
          (Some (DatasetSrc [])) () None) = Inl TypeError
   \<and> fst (sketch example_percentile example_capacity (Single example_module)
          (Some (IterableSrc [])) () None) = Inl TypeError
   \<and> fst (sketch example_percentile example_capacity (Single example_module)
          (Some (IteratorSrc [])) () None) = Inl EmptySourceError"
  by (simp add: sketch_def loop_test_def)

text \<open>
  On a source that \<open>to_iterator\<close> turns into an iterator, the routine fails with
  \<open>EmptySourceError\<close> exactly when the loop obtains no batch: the iterator is exhausted at
  the first \<open>next\<close>, or the budget is at most 0 and \<open>next\<close> is never called.
\<close>

lemma sketch_empty_source_iterator:
  assumes "to_iterator data = Inr (Some (PyIterator it))"
  shows "(fst (sketch percentile capacity (Single module) data pcts budget) = Inl EmptySourceError) =
            (it = [] \<or> (\<exists>k. budget = Some k \<and> k \<le> 0))"
proof -
  have "(fst (sketch percentile capacity (Single module) data pcts budget) = Inl EmptySourceError) =
        (fst (sketch_rows module capacity (Some (PyIterator it)) budget) = Inl EmptySourceError)"
    by (cases "sketch_rows module capacity (Some (PyIterator it)) budget")
      (auto simp: sketch_Single [OF assms] split: sum.splits)
  then show ?thesis by (simp only: sketch_rows_error_iff)
qed

section \<open>Properties of the on-demand operation\<close>

lemma sketch_modules_errors:
  "fst (sketch_modules percentile cap ms di pcts ne) = Inl e \<Longrightarrow>
   e = TypeError \<or> e = EmptySourceError \<or> e = RuntimeError"
proof (induction ms arbitrary: di)
  case Nil
  then show ?case by simp
next
  case (Cons m ms)
  show ?case
  proof (cases "sketch_rows m cap di ne")
    case (fields r rest ws)
    show ?thesis
    proof (cases r)
      case (Inl e')
      with Cons.prems fields sketch_rows_errors [of m cap di ne e'] show ?thesis
        by (simp del: sketch_rows.simps)
    next
      case (Inr rows)
      with Cons.prems fields have "fst (sketch_modules percentile cap ms rest pcts ne) = Inl e"
        by (auto simp del: sketch_rows.simps split: prod.splits sum.splits)
      then show ?thesis by (rule Cons.IH)
    qed
  qed
qed

lemma sketch_errors:
  "fst (sketch percentile cap modules data pcts ne) = Inl e \<Longrightarrow>
   e = TypeError \<or> e = EmptySourceError \<or> e = RuntimeError
   \<or> e = UnsupportedSourceError \<or> e = IndexError"
proof (cases "to_iterator data")
  case (Inl e')
  assume "fst (sketch percentile cap modules data pcts ne) = Inl e"
  with Inl have "e = e'" by (simp add: sketch_def)
  moreover from Inl have "e' = UnsupportedSourceError"
    by (cases data rule: to_iterator.cases) auto
  ultimately show ?thesis by simp
next
  case (Inr di)
  assume a: "fst (sketch percentile cap modules data pcts ne) = Inl e"
  show ?thesis
  proof (cases modules)
    case (Single m)
    with a Inr sketch_modules_errors [of percentile cap "[m]" di pcts ne e] show ?thesis
      by (auto simp: sketch_def simp del: sketch_modules.simps
          split: prod.splits sum.splits list.splits)
  next
    case (Many ms)
    with a Inr sketch_modules_errors [of percentile cap ms di pcts ne e] show ?thesis
      by (auto simp: sketch_def split: prod.splits sum.splits)
  qed
qed

lemma sketch_not_NoDefaultDataError:
  "fst (sketch percentile cap modules data pcts ne) \<noteq> Inl NoDefaultDataError"
  using sketch_errors [of percentile cap modules data pcts ne NoDefaultDataError] by auto

lemma to_iterator_as_source:
  "to_iterator (Some (as_source it)) = Inr (Some it)"
  by (cases it) auto

lemma to_iterator_again:
  "to_iterator (Some d) = Inr it \<Longrightarrow> to_iterator (map_option as_source it) = Inr it"
  by (cases d) auto

lemma sketch_to_iterator_cong:
  "to_iterator data = to_iterator data' \<Longrightarrow>
   sketch percentile cap modules data pcts ne = sketch percentile cap modules data' pcts ne"
  by (simp add: sketch_def)

lemma call_with_data:
  "fst (call percentile cap self modules (Some d) pcts) =
     fst (sketch percentile cap modules (Some d)
            (case pcts of None \<Rightarrow> percentiles self | Some p \<Rightarrow> p) None)
   \<and> snd (snd (call percentile cap self modules (Some d) pcts)) =
     snd (snd (sketch percentile cap modules (Some d)
            (case pcts of None \<Rightarrow> percentiles self | Some p \<Rightarrow> p) None))"
proof (cases "to_iterator (Some d)")
  case (Inl e)
  then show ?thesis by (simp add: call_def sketch_def)
next
  case (Inr it)
  from to_iterator_again [OF this] Inr
  have "to_iterator (map_option as_source it) = to_iterator (Some d)" by simp
  from sketch_to_iterator_cong [OF this, of percentile cap modules
      "case pcts of None \<Rightarrow> percentiles self | Some p \<Rightarrow> p" None] Inr
  show ?thesis
    by (simp add: call_def Let_def split: prod.splits)
qed

lemma call_default:
  "data_iterator self = Some it \<Longrightarrow>
   fst (call percentile cap self modules None pcts) =
     fst (sketch percentile cap modules (Some (as_source it))
            (case pcts of None \<Rightarrow> percentiles self | Some p \<Rightarrow> p) (num_examples self))
   \<and> snd (snd (call percentile cap self modules None pcts)) =
     snd (snd (sketch percentile cap modules (Some (as_source it))
            (case pcts of None \<Rightarrow> percentiles self | Some p \<Rightarrow> p) (num_examples self)))"
  by (simp add: call_def Let_def split: prod.splits)

text \<open>
  Claim C8. The on-demand operation fails with \<open>NoDefaultDataError\<close> exactly when the
  coordinator holds no default data iterator and the call supplies no data. In every other
  case its outcome is the outcome of the quantile sketch routine: on the supplied data with no
  budget, or on the default iterator with the stored budget (the routine never raises
  \<open>NoDefaultDataError\<close> itself; a supplied source of no recognised kind is refused by
  \<open>to_iterator\<close>, in the call as in the routine).
\<close>

theorem call_no_default_data:
  "((fst (call percentile capacity self modules data pcts) = Inl NoDefaultDataError) =
      (data_iterator self = None \<and> data = None))
   \<and> (data = Some d \<longrightarrow>
          fst (call percentile capacity self modules data pcts) =
            fst (sketch percentile capacity modules (Some d)
                   (case pcts of None \<Rightarrow> percentiles self | Some p \<Rightarrow> p) None))
   \<and> (data = None \<and> data_iterator self = Some it \<longrightarrow>
          fst (call percentile capacity self modules data pcts) =
            fst (sketch percentile capacity modules (Some (as_source it))
                   (case pcts of None \<Rightarrow> percentiles self | Some p \<Rightarrow> p) (num_examples self)))"
proof (cases data)
  case None
  show ?thesis
  proof (cases "data_iterator self")
    case n: None
    with None show ?thesis by (simp add: call_def)
  next
    case (Some it')
    with None call_default [OF Some, of percentile capacity modules pcts] show ?thesis
      by (simp add: sketch_not_NoDefaultDataError)
  qed
next
  case (Some d')
  with call_with_data [of percentile capacity self modules d' pcts] show ?thesis
    by (auto simp: sketch_not_NoDefaultDataError)
qed

lemmas sketch_example_simps =
  sketch_def loop_test_def Let_def slice_assign_def torch_empty_def torch_cat_def
  example_module_def example_percentile_def example_capacity_def

text \<open>
  Claim C8, witness: a call with data, a call on the default iterator, and a call with neither.
\<close>

theorem call_no_default_data_witness:
  "fst (call example_percentile example_capacity
          \<lparr>data_iterator = None, percentiles = (), num_examples = Some 2\<rparr>
          (Single example_module) (Some (TensorSrc [1, 2, 3])) None) =
     Inr (One [Some 2, Some 4, Some 6])
   \<and> fst (call example_percentile example_capacity
          \<lparr>data_iterator = Some (PyIterator [[1, 2, 3]]), percentiles = (), num_examples = Some 2\<rparr>
          (Single example_module) None None) =
     Inr (One [Some 2, Some 4])
   \<and> fst (call example_percentile example_capacity
          \<lparr>data_iterator = None, percentiles = (), num_examples = Some 2\<rparr>
          (Single example_module) None None) = Inl NoDefaultDataError"
  using call_no_default_data [where percentile = example_percentile
      and capacity = example_capacity
      and self = "\<lparr>data_iterator = None, percentiles = (), num_examples = Some 2\<rparr>"
      and modules = "Single example_module" and data = "Some (TensorSrc [1, 2, 3])"
      and pcts = None and d = "TensorSrc [1, 2, 3]"]
    call_no_default_data [where percentile = example_percentile
      and capacity = example_capacity
      and self = "\<lparr>data_iterator = Some (PyIterator [[1, 2, 3]]), percentiles = (),
                   num_examples = Some 2\<rparr>"
      and modules = "Single example_module" and data = None and pcts = None
      and it = "PyIterator [[1, 2, 3]]"]
    call_no_default_data [where percentile = example_percentile
      and capacity = example_capacity
      and self = "\<lparr>data_iterator = None, percentiles = (), num_examples = Some 2\<rparr>"
      and modules = "Single example_module" and data = None and pcts = None]
  by (simp add: sketch_example_simps)

text \<open>
  Claim C10. With an explicit data argument the stored budget plays no part: whatever
  \<open>num_examples\<close> the coordinator holds, the outcome of the call is the outcome of the routine
  run on the supplied data with budget \<open>None\<close>; and whenever such a call returns the sketch
  of a single module, the sketch is computed from all the samples the supplied source yields.
  The stored budget is applied when the call falls back to the default iterator: the outcome
  is then that of the routine run with the stored budget \<open>k\<close>, and whenever it returns the
  sketch of a single module, the sketch is computed from the first \<open>k\<close> samples of the
  default iterator (from all of them when there are fewer).
\<close>

theorem call_budget_only_for_default:
  "fst (call percentile capacity (self\<lparr>num_examples := n\<rparr>) modules (Some d) pcts) =
     fst (sketch percentile capacity modules (Some d)
            (case pcts of None \<Rightarrow> percentiles self | Some p \<Rightarrow> p) None)
   \<and> (fst (call percentile capacity (self\<lparr>num_examples := n\<rparr>) (Single module) (Some d) pcts) =
         Inr (One q) \<longrightarrow>
       (\<exists>it. to_iterator (Some d) = Inr (Some (PyIterator it))
          \<and> q = percentile (map (\<lambda>x. Some (module x)) (concat it))
                  (case pcts of None \<Rightarrow> percentiles self | Some p \<Rightarrow> p)))
   \<and> (data_iterator self = Some di \<longrightarrow>
       fst (call percentile capacity (self\<lparr>num_examples := Some k\<rparr>) modules None pcts) =
         fst (sketch percentile capacity modules (Some (as_source di))
                (case pcts of None \<Rightarrow> percentiles self | Some p \<Rightarrow> p) (Some k)))
   \<and> (data_iterator self = Some di
       \<and> fst (call percentile capacity (self\<lparr>num_examples := Some k\<rparr>) (Single module) None pcts) =
           Inr (One q') \<longrightarrow>
       (\<exists>it. di = PyIterator it
          \<and> q' = percentile (map (\<lambda>x. Some (module x)) (take (nat k) (concat it)))
                   (case pcts of None \<Rightarrow> percentiles self | Some p \<Rightarrow> p)))"
proof (intro conjI impI)
  let ?p = "case pcts of None \<Rightarrow> percentiles self | Some p \<Rightarrow> p"
  show c1: "fst (call percentile capacity (self\<lparr>num_examples := n\<rparr>) modules (Some d) pcts) =
     fst (sketch percentile capacity modules (Some d) ?p None)" for modules
    using call_with_data [of percentile capacity "self\<lparr>num_examples := n\<rparr>" modules d pcts]
    by (cases pcts) simp_all
  have single: "\<exists>it. di' = PyIterator it \<and> q0 = percentile (map (\<lambda>x. Some (module x)) (sel it)) ?p"
    if t: "to_iterator data = Inr (Some di')"
      and s: "fst (sketch percentile capacity (Single module) data ?p ne) = Inr (One q0)"
      and r: "\<And>it rows rest ws.
                sketch_rows module capacity (Some (PyIterator it)) ne = (Inr rows, rest, ws) \<Longrightarrow>
                rows = map (\<lambda>x. Some (module x)) (sel it)"
    for data di' q0 ne sel
  proof -
    obtain res rest ws where sr: "sketch_rows module capacity (Some di') ne = (res, rest, ws)"
      by (cases "sketch_rows module capacity (Some di') ne") auto
    from s sr obtain rows where res: "res = Inr rows" and q0: "q0 = percentile rows ?p"
      by (cases res) (simp_all add: sketch_Single [OF t] del: sketch_rows.simps)
    from sr res obtain it where di': "di' = PyIterator it"
      by (cases di') (auto split: if_splits)
    from r [of it rows rest ws] sr res di' q0 show ?thesis by simp
  qed
  {
    assume a: "fst (call percentile capacity (self\<lparr>num_examples := n\<rparr>) (Single module) (Some d) pcts) =
         Inr (One q)"
    with c1 [of "Single module"]
    have s: "fst (sketch percentile capacity (Single module) (Some d) ?p None) = Inr (One q)"
      by simp
    then obtain di' where t: "to_iterator (Some d) = Inr (Some di')"
      by (cases d) (auto simp: sketch_def)
    from single [OF t s, of concat] t
    show "\<exists>it. to_iterator (Some d) = Inr (Some (PyIterator it))
          \<and> q = percentile (map (\<lambda>x. Some (module x)) (concat it)) ?p"
      using sketch_rows_unbounded_partial by blast
  }
  {
    assume a: "data_iterator self = Some di"
    then show "fst (call percentile capacity (self\<lparr>num_examples := Some k\<rparr>) modules None pcts) =
         fst (sketch percentile capacity modules (Some (as_source di)) ?p (Some k))"
      using call_default [of "self\<lparr>num_examples := Some k\<rparr>" di percentile capacity modules pcts]
      by (cases pcts) simp_all
  }
  {
    assume a: "data_iterator self = Some di
       \<and> fst (call percentile capacity (self\<lparr>num_examples := Some k\<rparr>) (Single module) None pcts) =
           Inr (One q')"
    then have s: "fst (sketch percentile capacity (Single module) (Some (as_source di)) ?p (Some k)) =
           Inr (One q')"
      using call_default [of "self\<lparr>num_examples := Some k\<rparr>" di percentile capacity
          "Single module" pcts]
      by (cases pcts) simp_all
    from single [OF to_iterator_as_source s, of "\<lambda>it. take (nat k) (concat it)"]
    show "\<exists>it. di = PyIterator it
          \<and> q' = percentile (map (\<lambda>x. Some (module x)) (take (nat k) (concat it))) ?p"
      using sketch_rows_budget_partial by blast
  }
qed

text \<open>
  Claim C10, witness: stored budget 2; the supplied tensor of 3 rows is used whole, the
  default iterator is cut to 2 samples.
\<close>

theorem call_budget_only_for_default_witness:
  "fst (call example_percentile example_capacity
          \<lparr>data_iterator = Some (PyIterator [[7, 8, 9]]), percentiles = (), num_examples = Some 2\<rparr>
          (Single example_module) (Some (TensorSrc [1, 2, 3])) None) =
     Inr (One [Some 2, Some 4, Some 6])
   \<and> fst (call example_percentile example_capacity
          \<lparr>data_iterator = Some (PyIterator [[7, 8, 9]]), percentiles = (), num_examples = Some 2\<rparr>
          (Single example_module) None None) =
     Inr (One [Some 14, Some 16])"
proof -
  let ?s = "\<lparr>data_iterator = Some (PyIterator [[7, 8, 9 :: nat]]), percentiles = (),
             num_examples = Some 2\<rparr>"
  note t = call_budget_only_for_default [where percentile = example_percentile
      and capacity = example_capacity and self = ?s and n = "Some 2" and k = 2
      and modules = "Single example_module" and d = "TensorSrc [1, 2, 3]"
      and pcts = None and module = example_module and di = "PyIterator [[7, 8, 9]]"]
  have a: "fst (call example_percentile example_capacity ?s
          (Single example_module) (Some (TensorSrc [1, 2, 3])) None) =
     Inr (One [Some 2, Some 4, Some 6])"
    using t [of "[Some 2, Some 4, Some 6]" "[Some 14, Some 16]"] by (simp add: sketch_example_simps)
  have b: "fst (call example_percentile example_capacity ?s (Single example_module) None None) =
     Inr (One [Some 14, Some 16])"
    using t [of "[Some 2, Some 4, Some 6]" "[Some 14, Some 16]"] by (simp add: sketch_example_simps)
  from a b show ?thesis by simp
qed

section \<open>Properties of starting a stream\<close>

lemma pick_num_workers_negative:
  "n_workers < 0 \<Longrightarrow>
   pick_num_workers n_workers cpu_count =
     (if int_half (cpu_count - 1) < 10000000 then PyInt (max 1 (int_half (cpu_count - 1)))
      else PyFloat 10000000)"
  by (simp add: pick_num_workers_def py_min_def py_max_def max_def)

lemma stream_workers:
  "stream modules n_sketches n_epochs n_workers maxid cpu_count rnd = Inr s \<Longrightarrow>
   pick_num_workers n_workers cpu_count = PyInt nw \<Longrightarrow>
   length (workers s) = nat nw \<and> queue_maxsize s = 2 * nw"
  by (auto simp: stream_def Let_def split: sum.splits if_splits)

text \<open>
  Claim C9. For every negative \<open>num_workers\<close>, on a machine whose
  \<open>int((cpu_count - 1) / 2)\<close> is below the bound \<open>1e7\<close> that the code puts on the number
  (every machine with at most 20000000 processors), the number of workers is
  \<open>max(1, int((cpu_count - 1) / 2))\<close>: a stream that starts has exactly that many workers
  and a queue of twice that bound. The number is at least 1, also with 1 or 2 processors, and
  for \<open>cpu_count \<ge> 1\<close> the rounding towards zero is the floor.
\<close>

theorem stream_worker_count:
  assumes "n_workers < 0" and "int_half (cpu_count - 1) < 10000000"
  shows "pick_num_workers n_workers cpu_count = PyInt (max 1 (int_half (cpu_count - 1)))
       \<and> (stream modules n_sketches n_epochs n_workers maxid cpu_count rnd = Inr s \<longrightarrow>
            int (length (workers s)) = max 1 (int_half (cpu_count - 1))
            \<and> queue_maxsize s = 2 * int (length (workers s)))
       \<and> 1 \<le> max 1 (int_half (cpu_count - 1))
       \<and> (1 \<le> cpu_count \<longrightarrow> int_half (cpu_count - 1) = (cpu_count - 1) div 2)"
proof -
  have p: "pick_num_workers n_workers cpu_count = PyInt (max 1 (int_half (cpu_count - 1)))"
    using assms by (simp add: pick_num_workers_negative)
  have "stream modules n_sketches n_epochs n_workers maxid cpu_count rnd = Inr s \<Longrightarrow>
        int (length (workers s)) = max 1 (int_half (cpu_count - 1))
        \<and> queue_maxsize s = 2 * int (length (workers s))"
    using stream_workers [OF _ p, of modules n_sketches n_epochs maxid rnd s] by auto
  with p show ?thesis by (auto simp: int_half_def)
qed

text \<open>
  Claim C9, witness: a machine with 2 processors starts one worker.
\<close>

theorem stream_worker_count_witness:
  "\<exists>s. (stream ModulesDataset 2 2 (- 1) None 2 (example_draw 5) :: error + nat stream_state) = Inr s
       \<and> length (workers s) = 1"
proof -
  have "\<exists>s. (stream ModulesDataset 2 2 (- 1) None 2 (example_draw 5) :: error + nat stream_state)
            = Inr s"
    by (simp add: stream_def pick_num_workers_def py_min_def py_max_def int_half_def randint_def
        int16_max_def Let_def)
  then obtain s where s:
    "(stream ModulesDataset 2 2 (- 1) None 2 (example_draw 5) :: error + nat stream_state) = Inr s"
    by blast
  from stream_worker_count [of "- 1" 2 ModulesDataset 2 2 None "example_draw 5" s] s
  have "length (workers s) = 1" by (simp add: int_half_def)
  with s show ?thesis by blast
qed

text \<open>
  Claim C4, the code at a failing input: \<open>num_sketches = -2\<close>. The dictionary gets
  \<open>num_sketches = -1\<close> (line 234 tests \<open>num_sketches > 0\<close>), but line 237 tests the argument
  against \<open>-1\<close> only, so a list of size \<open>-1\<close> is asked of \<open>torch.randint\<close>, which raises:
  the stream does not start.
\<close>

theorem stream_negative_items_fails:
  "(stream ModulesDataset (- 2) 1 2 None 8 (example_draw 5) :: error + nat stream_state)
     = Inl RuntimeError"
  by (simp add: stream_def pick_num_workers_def randint_def int16_max_def Let_def)

text \<open>
  Claim C3, the code at a failing input: an unbounded stream over a \<open>ModulesDataset\<close> started
  with \<open>max_id = 10\<close>. The dictionary records the bound 10, yet the first worker may claim the
  id 20000: the draw of line 328 is bounded by \<open>len(modules)\<close> or by
  \<open>torch.iinfo(torch.int16).max\<close>, never by \<open>shared_data['max_id']\<close>.
\<close>

theorem unbounded_draw_ignores_max_id:
  "\<exists>s s'. (stream ModulesDataset (- 1) 1 1 (Some 10) 8 (example_draw 5)
              :: error + nat stream_state) = Inr s
     \<and> run [WorkerStep 0 (example_draw 20000) (Inr 0),
             WorkerStep 0 (example_draw 20000) (Inr 0)] s = Some s'
     \<and> max_id (shared s') = 10
     \<and> pc (workers s' ! 0) = AtCompute
     \<and> sketch_id (workers s' ! 0) = 20000"
  by (simp add: stream_def pick_num_workers_def Let_def new_worker_def worker_step_def
      set_worker_def claim_def randint_def int16_max_def py_index_def example_draw_def)

section \<open>The protocol keeps its invariant\<close>

lemma filter_length_update:
  "i < length ws \<Longrightarrow>
   int (length (filter P (ws[i := w]))) =
     int (length (filter P ws)) - (if P (ws ! i) then 1 else 0) + (if P w then 1 else 0)"
proof (induction ws arbitrary: i)
  case Nil
  then show ?case by simp
next
  case (Cons a ws)
  show ?case
  proof (cases i)
    case 0
    then show ?thesis by simp
  next
    case (Suc j)
    with Cons.prems have "j < length ws" by simp
    from Cons.IH [OF this] Suc show ?thesis by (auto split: if_splits)
  qed
qed

lemma count_workers_update:
  "workers s' = (workers s)[i := w] \<Longrightarrow> i < length (workers s) \<Longrightarrow>
   count_workers P s' =
     count_workers P s - (if P (workers s ! i) then 1 else 0) + (if P w then 1 else 0)"
  by (simp add: count_workers_def filter_length_update)

lemma count_workers_nonneg: "0 \<le> count_workers P s"
  by (simp add: count_workers_def)

lemma count_workers_pos:
  "i < length (workers s) \<Longrightarrow> P (workers s ! i) \<Longrightarrow> 1 \<le> count_workers P s"
proof -
  assume a: "i < length (workers s)" "P (workers s ! i)"
  then have "workers s ! i \<in> set (filter P (workers s))" by simp
  then show ?thesis
    by (cases "filter P (workers s)") (auto simp: count_workers_def)
qed

lemma count_workers_zero:
  "count_workers P s \<le> 0 \<Longrightarrow> w \<in> set (workers s) \<Longrightarrow> \<not> P w"
proof
  assume a: "count_workers P s \<le> 0" "w \<in> set (workers s)" "P w"
  then have "w \<in> set (filter P (workers s))" by simp
  with a(1) show False
    by (cases "filter P (workers s)") (auto simp: count_workers_def)
qed

lemma in_set_update:
  "w \<in> set (ws[i := w']) \<Longrightarrow> w = w' \<or> w \<in> set ws"
  using set_update_subset_insert [of ws i w'] by auto

lemma claimed_le:
  "inv_counters sh \<Longrightarrow> claimed sh e \<le> num_sketches sh"
  by (auto simp: inv_counters_def claimed_def)

lemma count_workers_mono:
  "(\<And>w. w \<in> set (workers s) \<Longrightarrow> P w \<Longrightarrow> Q w) \<Longrightarrow> count_workers P s \<le> count_workers Q s"
proof -
  have "(\<And>w. w \<in> set ws \<Longrightarrow> P w \<Longrightarrow> Q w) \<Longrightarrow> length (filter P ws) \<le> length (filter Q ws)"
    for ws :: "'a worker list"
    by (induction ws) auto
  then show "(\<And>w. w \<in> set (workers s) \<Longrightarrow> P w \<Longrightarrow> Q w) \<Longrightarrow> ?thesis"
    by (simp add: count_workers_def)
qed

lemma epoch_sizes_append_Item:
  "epoch_sizes k (ms @ [Item q i]) = (fst (epoch_sizes k ms), Suc (snd (epoch_sizes k ms)))"
  by (induction k ms rule: epoch_sizes.induct) (auto split: prod.splits)

lemma epoch_sizes_append_Terminator:
  "epoch_sizes k (ms @ [Terminator]) =
     (fst (epoch_sizes k ms) @ [snd (epoch_sizes k ms)], 0)"
  by (induction k ms rule: epoch_sizes.induct) (auto split: prod.splits)

lemma worker_step_index:
  "worker_step rnd oc i s = Some s' \<Longrightarrow> i < length (workers s)"
  by (auto simp: worker_step_def split: if_splits)

lemma inv_slots_step:
  assumes "inv_slots s" and "i < length (workers s)" and "workers s' = (workers s)[i := w']"
    and "\<And>e. (if holding e w' then 1 else 0)
              + (if e = current_put_epoch (shared s') then done_in_current_epoch (shared s') else 0)
              + claimed (shared s) e
            \<le> (if holding e (workers s ! i) then 1 else (0::int))
              + (if e = current_put_epoch (shared s) then done_in_current_epoch (shared s) else 0)
              + claimed (shared s') e"
  shows "inv_slots s'"
  unfolding inv_slots_def
proof
  fix e
  from assms(1) have a: "count_workers (holding e) s
            + (if e = current_put_epoch (shared s) then done_in_current_epoch (shared s) else 0)
          \<le> claimed (shared s) e"
    by (simp add: inv_slots_def)
  have b: "count_workers (holding e) s' =
     count_workers (holding e) s - (if holding e (workers s ! i) then 1 else 0)
       + (if holding e w' then 1 else 0)"
    using assms(3,2) by (rule count_workers_update)
  from a b assms(4) [of e]
  show "count_workers (holding e) s'
            + (if e = current_put_epoch (shared s') then done_in_current_epoch (shared s') else 0)
          \<le> claimed (shared s') e"
    by linarith
qed

lemma inv_turn_step:
  assumes "inv_turn s" and "workers s' = (workers s)[i := w']"
    and "current_put_epoch (shared s') = current_put_epoch (shared s)"
    and "pc w' = AtPutItem \<or> pc w' = AtCount \<Longrightarrow> epoch w' = current_put_epoch (shared s)"
  shows "inv_turn s'"
  using assms by (auto simp: inv_turn_def dest!: in_set_update)

lemma inv_sentinel_step:
  assumes "inv_sentinel s" and "i < length (workers s)" and "workers s' = (workers s)[i := w']"
    and "pc (workers s ! i) \<noteq> AtPutSentinel" and "pc w' \<noteq> AtPutSentinel"
    and "lock s \<Longrightarrow> lock s'"
    and "lock s \<Longrightarrow> done_in_current_epoch (shared s') = done_in_current_epoch (shared s)"
    and "num_sketches (shared s') = num_sketches (shared s)"
  shows "inv_sentinel s'"
proof -
  have "count_workers at_sentinel s' = count_workers at_sentinel s"
    using count_workers_update [OF assms(3,2), of at_sentinel] assms(4,5)
    by (simp add: at_sentinel_def)
  with assms show ?thesis by (auto simp: inv_sentinel_def)
qed

lemma inv_log_step:
  assumes "inv_log s" and "i < length (workers s)" and "workers s' = (workers s)[i := w']"
    and "pc (workers s ! i) \<noteq> AtCount" and "pc w' \<noteq> AtCount"
    and "queue_log s' = queue_log s"
    and "current_put_epoch (shared s') = current_put_epoch (shared s)"
    and "done_in_current_epoch (shared s') = done_in_current_epoch (shared s)"
    and "num_sketches (shared s') = num_sketches (shared s)"
  shows "inv_log s'"
proof -
  have "count_workers at_count s' = count_workers at_count s"
    using count_workers_update [OF assms(3,2), of at_count] assms(4,5)
    by (simp add: at_count_def)
  with assms show ?thesis by (auto simp: inv_log_def)
qed


text \<open>steps that move one worker between places that are not counted\<close>

lemma bounded_inv_quiet_step:
  assumes inv: "bounded_inv s" and i: "i < length (workers s)"
    and s': "s' = set_worker s i w'"
    and old: "pc (workers s ! i) \<noteq> AtPutSentinel" "pc (workers s ! i) \<noteq> AtCount"
    and new: "pc w' \<noteq> AtPutSentinel" "pc w' \<noteq> AtCount"
    and hold: "\<And>e. holding e w' \<Longrightarrow> holding e (workers s ! i)"
    and turn: "pc w' = AtPutItem \<Longrightarrow> epoch w' = current_put_epoch (shared s)"
  shows "bounded_inv s'"
proof -
  let ?w = "workers s ! i"
  have ws: "workers s' = (workers s)[i := w']" and sh: "shared s' = shared s"
    and lg: "queue_log s' = queue_log s" and lk: "lock s' = lock s"
    using s' by (simp_all add: set_worker_def)
  have 1: "inv_counters (shared s')" using inv sh by (simp add: bounded_inv_def)
  have 2: "inv_slots s'"
  proof (rule inv_slots_step [OF _ i ws])
    show "inv_slots s" using inv by (simp add: bounded_inv_def)
    fix e
    have "holding e w' \<longrightarrow> holding e ?w" using hold by blast
    then show "(if holding e w' then 1 else 0)
              + (if e = current_put_epoch (shared s') then done_in_current_epoch (shared s') else 0)
              + claimed (shared s) e
            \<le> (if holding e ?w then 1 else (0::int))
              + (if e = current_put_epoch (shared s) then done_in_current_epoch (shared s) else 0)
              + claimed (shared s') e"
      by (auto simp: sh)
  qed
  have 3: "inv_turn s'"
    using inv new turn by (intro inv_turn_step [OF _ ws]) (auto simp: bounded_inv_def sh)
  have 4: "inv_sentinel s'"
    using inv old new by (intro inv_sentinel_step [OF _ i ws]) (auto simp: bounded_inv_def sh lk)
  have 5: "inv_log s'"
    using inv old new by (intro inv_log_step [OF _ i ws]) (auto simp: bounded_inv_def sh lg)
  from 1 2 3 4 5 show ?thesis by (simp add: bounded_inv_def)
qed

lemma claim_fields:
  assumes "claim modules rnd sh = (sh', r)"
  shows "num_sketches sh' = num_sketches sh \<and> current_put_epoch sh' = current_put_epoch sh
       \<and> done_in_current_epoch sh' = done_in_current_epoch sh"
    and "(current_pick_epoch sh' = current_pick_epoch sh \<and> current_sketch sh' = current_sketch sh
           \<and> (case r of Inl e \<Rightarrow> True
               | Inr (a, b, ep, dying) \<Rightarrow> dying \<and> ep = current_pick_epoch sh))
       \<or> (current_sketch sh = num_sketches sh - 1
           \<and> current_pick_epoch sh' = current_pick_epoch sh + 1 \<and> current_sketch sh' = 0
           \<and> (case r of Inl e \<Rightarrow> True
               | Inr (a, b, ep, dying) \<Rightarrow> \<not> dying \<and> ep = current_pick_epoch sh))
       \<or> (current_sketch sh \<noteq> num_sketches sh - 1
           \<and> current_pick_epoch sh' = current_pick_epoch sh
           \<and> current_sketch sh' = current_sketch sh + 1
           \<and> (case r of Inl e \<Rightarrow> False
               | Inr (a, b, ep, dying) \<Rightarrow> \<not> dying \<and> ep = current_pick_epoch sh))"
  using assms
  by (auto simp: claim_def Let_def split: sum.splits option.splits if_splits)

lemma bounded_inv_put_item:
  assumes inv: "bounded_inv s" and i: "i < length (workers s)"
    and old: "pc (workers s ! i) = AtPutItem"
    and s': "s' = set_worker (put (Item q k) s) i ((workers s ! i)\<lparr>pc := AtCount\<rparr>)"
  shows "bounded_inv s'"
proof -
  let ?w = "workers s ! i"
  let ?w' = "?w\<lparr>pc := AtCount\<rparr>"
  have ws: "workers s' = (workers s)[i := ?w']" and sh: "shared s' = shared s"
    and lg: "queue_log s' = queue_log s @ [Item q k]" and lk: "lock s' = lock s"
    using s' by (simp_all add: set_worker_def put_def)
  have mem: "?w \<in> set (workers s)" using i by simp
  have ep: "epoch ?w = current_put_epoch (shared s)"
    using inv old mem by (auto simp: bounded_inv_def inv_turn_def)
  have 1: "inv_counters (shared s')" using inv sh by (simp add: bounded_inv_def)
  have 2: "inv_slots s'"
  proof (rule inv_slots_step [OF _ i ws])
    show "inv_slots s" using inv by (simp add: bounded_inv_def)
    fix e
    have "holding e ?w' = holding e ?w" using old by (simp add: holding_def)
    then show "(if holding e ?w' then 1 else 0)
              + (if e = current_put_epoch (shared s') then done_in_current_epoch (shared s') else 0)
              + claimed (shared s) e
            \<le> (if holding e ?w then 1 else (0::int))
              + (if e = current_put_epoch (shared s) then done_in_current_epoch (shared s) else 0)
              + claimed (shared s') e"
      by (simp add: sh)
  qed
  have 3: "inv_turn s'"
    using inv ep by (intro inv_turn_step [OF _ ws]) (auto simp: bounded_inv_def sh)
  have 4: "inv_sentinel s'"
    using inv old by (intro inv_sentinel_step [OF _ i ws]) (auto simp: bounded_inv_def sh lk)
  have cnt: "count_workers at_count s' = count_workers at_count s + 1"
    using count_workers_update [OF ws i, of at_count] old by (simp add: at_count_def)
  have l: "inv_log s" using inv by (simp add: bounded_inv_def)
  have d0: "0 \<le> done_in_current_epoch (shared s)"
    using inv by (simp add: bounded_inv_def inv_counters_def)
  have "nat (done_in_current_epoch (shared s) + (count_workers at_count s + 1)) =
        Suc (nat (done_in_current_epoch (shared s) + count_workers at_count s))"
    using d0 count_workers_nonneg [of at_count s] by linarith
  then have 5: "inv_log s'"
    using l by (simp add: inv_log_def lg sh cnt epoch_sizes_append_Item)
  from 1 2 3 4 5 show ?thesis by (simp add: bounded_inv_def)
qed


lemma bounded_inv_claim:
  assumes inv: "bounded_inv s" and i: "i < length (workers s)"
    and old: "pc (workers s ! i) = AtClaim"
    and cl: "claim (modules_of s) rnd (shared s) = (sh', r)"
    and ws: "workers s' = (workers s)[i := w']" and sh: "shared s' = sh'"
    and lg: "queue_log s' = queue_log s" and lk: "lock s \<Longrightarrow> lock s'"
    and w': "case r of Inl e \<Rightarrow> pc w' = Crashed
             | Inr (a, b, ep, dying) \<Rightarrow>
                 epoch w' = ep \<and> pc w' = (if dying then AtDrain else AtCompute)"
  shows "bounded_inv s'"
proof -
  let ?w = "workers s ! i"
  let ?K = "current_pick_epoch (shared s)"
  note f = claim_fields [OF cl]
  have c: "inv_counters (shared s)" using inv by (simp add: bounded_inv_def)
  have nh: "\<not> holding e ?w" for e using old by (simp add: holding_def)
  have pcs: "pc w' = Crashed \<or> pc w' = AtDrain \<or> pc w' = AtCompute"
    using w' by (cases r) (auto split: if_splits)
  have hw: "holding e w' \<Longrightarrow> e = ?K
      \<and> ((current_sketch (shared s) = num_sketches (shared s) - 1
           \<and> current_pick_epoch sh' = ?K + 1 \<and> current_sketch sh' = 0)
         \<or> (current_pick_epoch sh' = ?K \<and> current_sketch sh' = current_sketch (shared s) + 1))"
    for e
  proof -
    assume h: "holding e w'"
    then have p: "pc w' = AtCompute" and e: "epoch w' = e"
      using pcs by (auto simp: holding_def)
    from p w' obtain a b ep where r: "r = Inr (a, b, ep, False)" and "epoch w' = ep"
      by (cases r) (auto split: if_splits)
    with e f(2) show ?thesis by auto
  qed
  from f(2) have step:
    "(current_pick_epoch sh' = ?K \<and> current_sketch sh' = current_sketch (shared s))
     \<or> (current_sketch (shared s) = num_sketches (shared s) - 1
         \<and> current_pick_epoch sh' = ?K + 1 \<and> current_sketch sh' = 0)
     \<or> (current_sketch (shared s) \<noteq> num_sketches (shared s) - 1
         \<and> current_pick_epoch sh' = ?K \<and> current_sketch sh' = current_sketch (shared s) + 1)"
    by blast
  have 1: "inv_counters (shared s')"
    using c f(1) step unfolding inv_counters_def sh by linarith
  have 2: "inv_slots s'"
  proof (rule inv_slots_step [OF _ i ws])
    show "inv_slots s" using inv by (simp add: bounded_inv_def)
    fix e
    have n': "num_sketches sh' = num_sketches (shared s)" using f(1) by simp
    have cn: "0 \<le> current_sketch (shared s)" "current_sketch (shared s) < num_sketches (shared s)"
      using c by (simp_all add: inv_counters_def)
    have mono: "claimed (shared s) e \<le> claimed sh' e"
      using step
    proof (elim disjE conjE)
      assume "current_pick_epoch sh' = ?K" "current_sketch sh' = current_sketch (shared s)"
      then show ?thesis by (simp add: claimed_def n')
    next
      assume "current_pick_epoch sh' = ?K + 1" "current_sketch sh' = 0"
      then show ?thesis using cn by (simp add: claimed_def n')
    next
      assume "current_pick_epoch sh' = ?K" "current_sketch sh' = current_sketch (shared s) + 1"
      then show ?thesis by (simp add: claimed_def n')
    qed
    have "(if holding e w' then 1 else 0) + claimed (shared s) e \<le> claimed sh' e"
    proof (cases "holding e w'")
      case False
      with mono show ?thesis by simp
    next
      case True
      from hw [OF True] have e: "e = ?K" by simp
      have old_claimed: "claimed (shared s) e = current_sketch (shared s)"
        by (simp add: claimed_def e)
      from hw [OF True] have "claimed sh' e = current_sketch (shared s) + 1"
      proof (elim disjE conjE)
        assume "current_sketch (shared s) = num_sketches (shared s) - 1"
          "current_pick_epoch sh' = ?K + 1"
        then show ?thesis by (simp add: claimed_def n' e)
      next
        assume "current_pick_epoch sh' = ?K" "current_sketch sh' = current_sketch (shared s) + 1"
        then show ?thesis by (simp add: claimed_def e)
      qed
      with True old_claimed show ?thesis by simp
    qed
    then show "(if holding e w' then 1 else 0)
              + (if e = current_put_epoch (shared s') then done_in_current_epoch (shared s') else 0)
              + claimed (shared s) e
            \<le> (if holding e ?w then 1 else (0::int))
              + (if e = current_put_epoch (shared s) then done_in_current_epoch (shared s) else 0)
              + claimed (shared s') e"
      using f(1) nh by (auto simp: sh)
  qed
  have 3: "inv_turn s'"
    using inv pcs f(1) by (intro inv_turn_step [OF _ ws]) (auto simp: bounded_inv_def sh)
  have 4: "inv_sentinel s'"
    using inv old pcs f(1) lk
    by (intro inv_sentinel_step [OF _ i ws]) (auto simp: bounded_inv_def sh)
  have 5: "inv_log s'"
    using inv old pcs f(1) lg
    by (intro inv_log_step [OF _ i ws]) (auto simp: bounded_inv_def sh)
  from 1 2 3 4 5 show ?thesis by (simp add: bounded_inv_def)
qed

lemma bounded_inv_count:
  assumes inv: "bounded_inv s" and i: "i < length (workers s)"
    and old: "pc (workers s ! i) = AtCount" and nl: "\<not> lock s"
    and sh: "shared s' = (shared s)\<lparr>done_in_current_epoch := done_in_current_epoch (shared s) + 1\<rparr>"
    and ws: "workers s' = (workers s)[i := w']"
    and lg: "queue_log s' = queue_log s"
    and w': "if done_in_current_epoch (shared s) + 1 = num_sketches (shared s)
             then pc w' = AtPutSentinel \<and> lock s' else pc w' = AtDieCheck"
  shows "bounded_inv s'"
proof -
  let ?w = "workers s ! i"
  let ?P = "current_put_epoch (shared s)"
  let ?d = "done_in_current_epoch (shared s)"
  have mem: "?w \<in> set (workers s)" using i by simp
  have ep: "epoch ?w = ?P"
    using inv old mem by (auto simp: bounded_inv_def inv_turn_def)
  have pcs: "pc w' = AtPutSentinel \<or> pc w' = AtDieCheck" using w' by (auto split: if_splits)
  have nh': "\<not> holding e w'" for e using pcs by (auto simp: holding_def)
  have h: "holding e ?w = (e = ?P)" for e using old ep by (auto simp: holding_def)
  have 1: "inv_counters (shared s')"
    using inv by (simp add: bounded_inv_def inv_counters_def sh)
  have 2: "inv_slots s'"
  proof (rule inv_slots_step [OF _ i ws])
    show "inv_slots s" using inv by (simp add: bounded_inv_def)
    fix e
    show "(if holding e w' then 1 else 0)
              + (if e = current_put_epoch (shared s') then done_in_current_epoch (shared s') else 0)
              + claimed (shared s) e
            \<le> (if holding e ?w then 1 else (0::int))
              + (if e = current_put_epoch (shared s) then done_in_current_epoch (shared s) else 0)
              + claimed (shared s') e"
      by (simp add: nh' h sh claimed_def)
  qed
  have 3: "inv_turn s'"
    using inv pcs by (intro inv_turn_step [OF _ ws]) (auto simp: bounded_inv_def sh)
  have s0: "count_workers at_sentinel s \<le> 0"
    using inv nl by (auto simp: bounded_inv_def inv_sentinel_def)
  have cs: "count_workers at_sentinel s' =
            count_workers at_sentinel s + (if at_sentinel w' then 1 else 0)"
    using count_workers_update [OF ws i, of at_sentinel] old by (simp add: at_sentinel_def)
  have 4: "inv_sentinel s'"
    using s0 cs w' count_workers_nonneg [of at_sentinel s]
    by (auto simp: inv_sentinel_def at_sentinel_def sh split: if_splits)
  have cnt: "count_workers at_count s' = count_workers at_count s - 1"
    using count_workers_update [OF ws i, of at_count] old pcs by (auto simp: at_count_def)
  have 5: "inv_log s'"
    using inv by (simp add: bounded_inv_def inv_log_def lg sh cnt)
  from 1 2 3 4 5 show ?thesis by (simp add: bounded_inv_def)
qed

lemma bounded_inv_put_sentinel:
  assumes inv: "bounded_inv s" and i: "i < length (workers s)"
    and old: "pc (workers s ! i) = AtPutSentinel"
    and sh: "shared s' = (shared s)\<lparr>done_in_current_epoch := 0,
                current_put_epoch := current_put_epoch (shared s) + 1\<rparr>"
    and ws: "workers s' = (workers s)[i := w']"
    and lg: "queue_log s' = queue_log s @ [Terminator]"
    and w': "pc w' = AtDieCheck"
  shows "bounded_inv s'"
proof -
  let ?w = "workers s ! i"
  let ?P = "current_put_epoch (shared s)"
  let ?K = "current_pick_epoch (shared s)"
  let ?n = "num_sketches (shared s)"
  have c: "inv_counters (shared s)" and sl: "inv_slots s" and tu: "inv_turn s"
    and se: "inv_sentinel s" and lo: "inv_log s"
    using inv by (simp_all add: bounded_inv_def)
  have "1 \<le> count_workers at_sentinel s"
    using count_workers_pos [OF i, of at_sentinel] old by (simp add: at_sentinel_def)
  with se have one: "count_workers at_sentinel s = 1" and dn: "done_in_current_epoch (shared s) = ?n"
    by (auto simp: inv_sentinel_def)
  from sl have "count_workers (holding ?P) s
        + (if ?P = ?P then done_in_current_epoch (shared s) else 0) \<le> claimed (shared s) ?P"
    unfolding inv_slots_def by (rule spec)
  then have slP: "count_workers (holding ?P) s + ?n \<le> claimed (shared s) ?P"
    using dn by simp
  have cl: "claimed (shared s) ?P \<le> ?n" using c by (rule claimed_le)
  have h0: "count_workers (holding ?P) s \<le> 0" using slP cl by linarith
  have PK: "?P < ?K"
  proof (rule ccontr)
    assume "\<not> ?P < ?K"
    with c have "claimed (shared s) ?P < ?n" by (auto simp: claimed_def inv_counters_def)
    with slP count_workers_nonneg [of "holding ?P" s] show False by linarith
  qed
  have noput: "\<not> (pc x = AtPutItem \<or> pc x = AtCount)" if "x \<in> set (workers s)" for x
  proof
    assume p: "pc x = AtPutItem \<or> pc x = AtCount"
    with tu that have "epoch x = ?P" by (auto simp: inv_turn_def)
    with p have "holding ?P x" by (auto simp: holding_def)
    with count_workers_zero [OF h0 that] show False by simp
  qed
  have nh: "\<not> holding e ?w" "\<not> holding e w'" for e
    using old w' by (simp_all add: holding_def)
  have 1: "inv_counters (shared s')"
    using c PK by (simp add: inv_counters_def sh)
  have 2: "inv_slots s'"
  proof (rule inv_slots_step [OF _ i ws])
    show "inv_slots s" by (rule sl)
    fix e
    have "0 \<le> done_in_current_epoch (shared s)" using c by (simp add: inv_counters_def)
    then show "(if holding e w' then 1 else 0)
              + (if e = current_put_epoch (shared s') then done_in_current_epoch (shared s') else 0)
              + claimed (shared s) e
            \<le> (if holding e ?w then 1 else (0::int))
              + (if e = current_put_epoch (shared s) then done_in_current_epoch (shared s) else 0)
              + claimed (shared s') e"
      by (simp add: nh sh claimed_def)
  qed
  have 3: "inv_turn s'"
    unfolding inv_turn_def
  proof (intro ballI impI)
    fix x assume x: "x \<in> set (workers s')" and p: "pc x = AtPutItem \<or> pc x = AtCount"
    from x ws have "x = w' \<or> x \<in> set (workers s)" by (auto dest: in_set_update)
    with p w' noput show "epoch x = current_put_epoch (shared s')" by auto
  qed
  have cs: "count_workers at_sentinel s' = 0"
    using count_workers_update [OF ws i, of at_sentinel] old w' one by (simp add: at_sentinel_def)
  have 4: "inv_sentinel s'" using cs by (simp add: inv_sentinel_def)
  have "count_workers at_count s \<le> 0"
  proof -
    have "count_workers at_count s \<le> count_workers (holding ?P) s"
    proof (rule count_workers_mono)
      fix x assume "x \<in> set (workers s)" "at_count x"
      with noput show "holding ?P x" by (auto simp: at_count_def)
    qed
    with h0 show ?thesis by linarith
  qed
  with count_workers_nonneg [of at_count s] have c0: "count_workers at_count s = 0" by linarith
  have c0': "count_workers at_count s' = 0"
    using count_workers_update [OF ws i, of at_count] old w' c0 by (simp add: at_count_def)
  have P0: "0 \<le> ?P" and n0: "0 < ?n" using c by (simp_all add: inv_counters_def)
  have "nat (?P + 1) = Suc (nat ?P)" using P0 by simp
  then have rep: "replicate (nat (?P + 1)) (nat ?n) = replicate (nat ?P) (nat ?n) @ [nat ?n]"
    by (simp add: replicate_append_same)
  have 5: "inv_log s'"
    using lo by (simp add: inv_log_def lg sh c0 c0' dn epoch_sizes_append_Terminator rep)
  from 1 2 3 4 5 show ?thesis by (simp add: bounded_inv_def)
qed

lemma bounded_inv_worker_step:
  assumes inv: "bounded_inv s" and st: "worker_step rnd oc i s = Some s'"
  shows "bounded_inv s'"
proof -
  let ?w = "workers s ! i"
  have i: "i < length (workers s)" using st by (rule worker_step_index)
  have mem: "?w \<in> set (workers s)" using i by simp
  show ?thesis
  proof (cases "pc ?w")
    case AtLoopHead
    with st i have "s' = set_worker s i (?w\<lparr>pc := (if pause (shared s) then AtDieCheck else AtClaim)\<rparr>)"
      by (simp add: worker_step_def Let_def)
    then show ?thesis
      by (rule bounded_inv_quiet_step [OF inv i]) (use AtLoopHead in \<open>auto simp: holding_def split: if_splits\<close>)
  next
    case AtClaim
    obtain sh' r where cl: "claim (modules_of s) rnd (shared s) = (sh', r)"
      by (cases "claim (modules_of s) rnd (shared s)") auto
    from st i AtClaim have nl: "\<not> lock s" by (auto simp: worker_step_def Let_def split: if_splits)
    show ?thesis
    proof (cases r)
      case (Inl e)
      with st i AtClaim cl nl
      have "s' = set_worker (s\<lparr>shared := sh', lock := True\<rparr>) i (?w\<lparr>pc := Crashed\<rparr>)"
        by (simp add: worker_step_def Let_def)
      then have "workers s' = (workers s)[i := ?w\<lparr>pc := Crashed\<rparr>]" "shared s' = sh'"
          "queue_log s' = queue_log s"
        by (simp_all add: set_worker_def)
      then show ?thesis
        using Inl nl by (intro bounded_inv_claim [OF inv i AtClaim cl]) auto
    next
      case (Inr t)
      obtain a b ep dying where t: "t = (a, b, ep, dying)" by (cases t) auto
      let ?w' = "?w\<lparr>pc := (if dying then AtDrain else AtCompute),
                     id_picked := a, sketch_id := b, epoch := ep\<rparr>"
      from st i AtClaim cl nl Inr t
      have "s' = set_worker (s\<lparr>shared := sh'\<rparr>) i ?w'"
        by (simp add: worker_step_def Let_def)
      then have "workers s' = (workers s)[i := ?w']" "shared s' = sh'"
          "queue_log s' = queue_log s"
        by (simp_all add: set_worker_def)
      then show ?thesis
        using Inr t nl by (intro bounded_inv_claim [OF inv i AtClaim cl]) auto
    qed
  next
    case AtDrain
    with st i have "s' = set_worker s i (?w\<lparr>pc := (if queue_size s = 0 then Parked else AtDrain)\<rparr>)"
      by (simp add: worker_step_def Let_def)
    then show ?thesis
      by (rule bounded_inv_quiet_step [OF inv i]) (use AtDrain in \<open>auto simp: holding_def split: if_splits\<close>)
  next
    case AtCompute
    with st i have "s' = set_worker s i (?w\<lparr>pc := Crashed\<rparr>)
        \<or> (\<exists>q. s' = set_worker s i (?w\<lparr>pc := AtWaitTurn, target_qf := Some q\<rparr>))"
      by (auto simp: worker_step_def Let_def split: sum.splits)
    then show ?thesis
    proof
      assume "s' = set_worker s i (?w\<lparr>pc := Crashed\<rparr>)"
      then show ?thesis
        by (rule bounded_inv_quiet_step [OF inv i]) (use AtCompute in \<open>auto simp: holding_def split: if_splits\<close>)
    next
      assume "\<exists>q. s' = set_worker s i (?w\<lparr>pc := AtWaitTurn, target_qf := Some q\<rparr>)"
      then obtain q where "s' = set_worker s i (?w\<lparr>pc := AtWaitTurn, target_qf := Some q\<rparr>)" ..
      then show ?thesis
        by (rule bounded_inv_quiet_step [OF inv i]) (use AtCompute in \<open>auto simp: holding_def split: if_splits\<close>)
    qed
  next
    case AtWaitTurn
    with st i have "s' = set_worker s i
        (?w\<lparr>pc := (if current_put_epoch (shared s) = epoch ?w then AtPutItem
                    else if die (shared s) then Parked else AtWaitTurn)\<rparr>)"
      by (auto simp: worker_step_def Let_def split: if_splits)
    then show ?thesis
      by (rule bounded_inv_quiet_step [OF inv i]) (use AtWaitTurn in \<open>auto simp: holding_def split: if_splits\<close>)
  next
    case AtPutItem
    with st i obtain q where "s' = set_worker (put (Item q (sketch_id ?w)) s) i (?w\<lparr>pc := AtCount\<rparr>)"
      by (auto simp: worker_step_def Let_def split: if_splits option.splits)
    then show ?thesis by (intro bounded_inv_put_item [OF inv i AtPutItem])
  next
    case AtCount
    let ?sh' = "(shared s)\<lparr>done_in_current_epoch := done_in_current_epoch (shared s) + 1\<rparr>"
    from st i AtCount have nl: "\<not> lock s" by (auto simp: worker_step_def Let_def split: if_splits)
    show ?thesis
    proof (cases "done_in_current_epoch (shared s) + 1 = num_sketches (shared s)")
      case True
      with st i AtCount nl
      have "s' = set_worker (s\<lparr>shared := ?sh', lock := True\<rparr>) i (?w\<lparr>pc := AtPutSentinel\<rparr>)"
        by (simp add: worker_step_def Let_def)
      then have "shared s' = ?sh'" "workers s' = (workers s)[i := ?w\<lparr>pc := AtPutSentinel\<rparr>]"
          "queue_log s' = queue_log s" "lock s'"
        by (simp_all add: set_worker_def)
      then show ?thesis
        using True by (intro bounded_inv_count [OF inv i AtCount nl]) auto
    next
      case False
      with st i AtCount nl
      have "s' = set_worker (s\<lparr>shared := ?sh'\<rparr>) i (?w\<lparr>pc := AtDieCheck\<rparr>)"
        by (simp add: worker_step_def Let_def)
      then have "shared s' = ?sh'" "workers s' = (workers s)[i := ?w\<lparr>pc := AtDieCheck\<rparr>]"
          "queue_log s' = queue_log s"
        by (simp_all add: set_worker_def)
      then show ?thesis
        using False by (intro bounded_inv_count [OF inv i AtCount nl]) auto
    qed
  next
    case AtPutSentinel
    with st i have "s' = set_worker
         ((put Terminator s)
            \<lparr>shared := (shared s)\<lparr>done_in_current_epoch := 0,
                 current_put_epoch := current_put_epoch (shared s) + 1\<rparr>,
             lock := False\<rparr>)
         i (?w\<lparr>pc := AtDieCheck\<rparr>)"
      by (auto simp: worker_step_def Let_def split: if_splits)
    then have "shared s' = (shared s)\<lparr>done_in_current_epoch := 0,
                 current_put_epoch := current_put_epoch (shared s) + 1\<rparr>"
        "workers s' = (workers s)[i := ?w\<lparr>pc := AtDieCheck\<rparr>]"
        "queue_log s' = queue_log s @ [Terminator]"
      by (simp_all add: set_worker_def put_def)
    then show ?thesis
      by (intro bounded_inv_put_sentinel [OF inv i AtPutSentinel]) auto
  next
    case AtDieCheck
    with st i have "s' = set_worker s i (?w\<lparr>pc := (if die (shared s) then Parked else AtPauseCheck)\<rparr>)"
      by (simp add: worker_step_def Let_def)
    then show ?thesis
      by (rule bounded_inv_quiet_step [OF inv i]) (use AtDieCheck in \<open>auto simp: holding_def split: if_splits\<close>)
  next
    case AtPauseCheck
    with st i have "s' = set_worker s i (?w\<lparr>pc := AtLoopHead\<rparr>)"
      by (simp add: worker_step_def Let_def)
    then show ?thesis
      by (rule bounded_inv_quiet_step [OF inv i]) (use AtPauseCheck in \<open>auto simp: holding_def split: if_splits\<close>)
  next
    case Parked
    with st i show ?thesis by (simp add: worker_step_def Let_def)
  next
    case Crashed
    with st i show ?thesis by (simp add: worker_step_def Let_def)
  qed
qed

lemma bounded_inv_fields:
  assumes "bounded_inv s"
    and "workers s' = workers s" and "queue_log s' = queue_log s" and "lock s' = lock s"
    and "num_sketches (shared s') = num_sketches (shared s)"
    and "current_sketch (shared s') = current_sketch (shared s)"
    and "done_in_current_epoch (shared s') = done_in_current_epoch (shared s)"
    and "current_put_epoch (shared s') = current_put_epoch (shared s)"
    and "current_pick_epoch (shared s') = current_pick_epoch (shared s)"
  shows "bounded_inv s'"
proof -
  have 1: "inv_counters (shared s') = inv_counters (shared s)"
    by (simp only: inv_counters_def assms(5-9))
  have 2: "inv_slots s' = inv_slots s"
    by (simp only: inv_slots_def count_workers_def claimed_def assms(2,5-9))
  have 3: "inv_turn s' = inv_turn s"
    by (simp only: inv_turn_def assms(2,8))
  have 4: "inv_sentinel s' = inv_sentinel s"
    by (simp only: inv_sentinel_def count_workers_def assms(2,4,5,7))
  have 5: "inv_log s' = inv_log s"
    by (simp only: inv_log_def count_workers_def assms(2,3,5,7,8))
  from assms(1) show ?thesis by (simp only: bounded_inv_def 1 2 3 4 5)
qed

lemma bounded_inv_step:
  assumes "bounded_inv s" and "step ev s = Some s'"
  shows "bounded_inv s'"
proof (cases ev)
  case (WorkerStep i rnd oc)
  with assms show ?thesis by (auto intro: bounded_inv_worker_step)
next
  case Consume
  with assms(2) have "s' = s\<lparr>queue_size := queue_size s - 1\<rparr>" by (auto split: if_splits)
  then show ?thesis by (intro bounded_inv_fields [OF assms(1)]) simp_all
next
  case CallPause
  with assms(2) have "s' = s\<lparr>shared := (shared s)\<lparr>pause := True\<rparr>\<rparr>" by auto
  then show ?thesis by (intro bounded_inv_fields [OF assms(1)]) simp_all
next
  case CallResume
  with assms(2) have "s' = s\<lparr>shared := (shared s)\<lparr>pause := False\<rparr>\<rparr>" by auto
  then show ?thesis by (intro bounded_inv_fields [OF assms(1)]) simp_all
next
  case CallStop
  with assms(2) have "s' = s\<lparr>shared := (shared s)\<lparr>die := True\<rparr>\<rparr>" by auto
  then show ?thesis by (intro bounded_inv_fields [OF assms(1)]) simp_all
qed

lemma unbounded_inv_worker_step:
  assumes inv: "unbounded_inv s" and st: "worker_step rnd oc i s = Some s'"
  shows "unbounded_inv s'"
proof -
  let ?w = "workers s ! i"
  have i: "i < length (workers s)" using st by (rule worker_step_index)
  have mem: "?w \<in> set (workers s)" using i by simp
  have ns: "pc ?w \<noteq> AtPutSentinel" using inv mem by (auto simp: unbounded_inv_def)
  have keep: "unbounded_inv s'"
    if "workers s' = (workers s)[i := w']" "pc w' \<noteq> AtPutSentinel"
      "num_sketches (shared s') = num_sketches (shared s)"
      "current_put_epoch (shared s') = current_put_epoch (shared s)"
      "current_pick_epoch (shared s') = current_pick_epoch (shared s)"
      "0 \<le> current_sketch (shared s')" "0 \<le> done_in_current_epoch (shared s')" for w'
    using inv that by (auto simp: unbounded_inv_def dest!: in_set_update)
  show ?thesis
  proof (cases "pc ?w")
    case AtLoopHead
    with st i have "s' = set_worker s i (?w\<lparr>pc := (if pause (shared s) then AtDieCheck else AtClaim)\<rparr>)"
      by (simp add: worker_step_def Let_def)
    then show ?thesis using inv by (intro keep) (auto simp: set_worker_def unbounded_inv_def split: if_splits)
  next
    case AtClaim
    obtain sh' r where cl: "claim (modules_of s) rnd (shared s) = (sh', r)"
      by (cases "claim (modules_of s) rnd (shared s)") auto
    note f = claim_fields [OF cl]
    have c: "current_sketch (shared s) \<noteq> num_sketches (shared s) - 1"
      using inv by (auto simp: unbounded_inv_def)
    from st i AtClaim cl obtain w' where "workers s' = (workers s)[i := w']"
      "pc w' \<noteq> AtPutSentinel" "shared s' = sh'"
      by (cases r) (auto simp: worker_step_def Let_def set_worker_def split: if_splits)
    then show ?thesis using inv f c by (intro keep) (auto simp: unbounded_inv_def)
  next
    case AtDrain
    with st i have "s' = set_worker s i (?w\<lparr>pc := (if queue_size s = 0 then Parked else AtDrain)\<rparr>)"
      by (simp add: worker_step_def Let_def)
    then show ?thesis using inv by (intro keep) (auto simp: set_worker_def unbounded_inv_def split: if_splits)
  next
    case AtCompute
    with st i obtain w' where "s' = set_worker s i w'" "pc w' = Crashed \<or> pc w' = AtWaitTurn"
      by (auto simp: worker_step_def Let_def split: sum.splits)
    then show ?thesis using inv by (intro keep) (auto simp: set_worker_def unbounded_inv_def split: if_splits)
  next
    case AtWaitTurn
    with st i have "s' = set_worker s i
        (?w\<lparr>pc := (if current_put_epoch (shared s) = epoch ?w then AtPutItem
                    else if die (shared s) then Parked else AtWaitTurn)\<rparr>)"
      by (auto simp: worker_step_def Let_def split: if_splits)
    then show ?thesis using inv by (intro keep) (auto simp: set_worker_def unbounded_inv_def split: if_splits)
  next
    case AtPutItem
    with st i obtain q where "s' = set_worker (put (Item q (sketch_id ?w)) s) i (?w\<lparr>pc := AtCount\<rparr>)"
      by (auto simp: worker_step_def Let_def split: if_splits option.splits)
    then show ?thesis using inv by (intro keep) (auto simp: set_worker_def put_def unbounded_inv_def)
  next
    case AtCount
    have "done_in_current_epoch (shared s) + 1 \<noteq> num_sketches (shared s)"
      using inv by (auto simp: unbounded_inv_def)
    with st i AtCount have "s' = set_worker
        (s\<lparr>shared := (shared s)\<lparr>done_in_current_epoch := done_in_current_epoch (shared s) + 1\<rparr>\<rparr>)
        i (?w\<lparr>pc := AtDieCheck\<rparr>)"
      by (auto simp: worker_step_def Let_def split: if_splits)
    then show ?thesis using inv by (intro keep) (auto simp: set_worker_def unbounded_inv_def split: if_splits)
  next
    case AtPutSentinel
    with ns show ?thesis by simp
  next
    case AtDieCheck
    with st i have "s' = set_worker s i (?w\<lparr>pc := (if die (shared s) then Parked else AtPauseCheck)\<rparr>)"
      by (simp add: worker_step_def Let_def)
    then show ?thesis using inv by (intro keep) (auto simp: set_worker_def unbounded_inv_def split: if_splits)
  next
    case AtPauseCheck
    with st i have "s' = set_worker s i (?w\<lparr>pc := AtLoopHead\<rparr>)"
      by (simp add: worker_step_def Let_def)
    then show ?thesis using inv by (intro keep) (auto simp: set_worker_def unbounded_inv_def split: if_splits)
  next
    case Parked
    with st i show ?thesis by (simp add: worker_step_def Let_def)
  next
    case Crashed
    with st i show ?thesis by (simp add: worker_step_def Let_def)
  qed
qed

lemma unbounded_inv_step:
  assumes "unbounded_inv s" and "step ev s = Some s'"
  shows "unbounded_inv s'"
proof (cases ev)
  case (WorkerStep i rnd oc)
  with assms show ?thesis by (auto intro: unbounded_inv_worker_step)
next
  case Consume
  with assms show ?thesis by (auto simp: unbounded_inv_def split: if_splits)
next
  case CallPause
  with assms show ?thesis by (auto simp: unbounded_inv_def)
next
  case CallResume
  with assms show ?thesis by (auto simp: unbounded_inv_def)
next
  case CallStop
  with assms show ?thesis by (auto simp: unbounded_inv_def)
qed

lemma bounded_inv_run:
  "bounded_inv s \<Longrightarrow> run evs s = Some s' \<Longrightarrow> bounded_inv s'"
proof (induction evs arbitrary: s)
  case Nil
  then show ?case by simp
next
  case (Cons ev evs)
  from Cons.prems(2) obtain s1 where s1: "step ev s = Some s1" and r: "run evs s1 = Some s'"
    by (auto split: option.splits)
  from bounded_inv_step [OF Cons.prems(1) s1] r show ?case by (rule Cons.IH)
qed

lemma unbounded_inv_run:
  "unbounded_inv s \<Longrightarrow> run evs s = Some s' \<Longrightarrow> unbounded_inv s'"
proof (induction evs arbitrary: s)
  case Nil
  then show ?case by simp
next
  case (Cons ev evs)
  from Cons.prems(2) obtain s1 where s1: "step ev s = Some s1" and r: "run evs s1 = Some s'"
    by (auto split: option.splits)
  from unbounded_inv_step [OF Cons.prems(1) s1] r show ?case by (rule Cons.IH)
qed

lemma stream_cases:
  assumes "stream modules n_sketches n_epochs n_workers maxid cpu_count rnd = Inr s"
  shows "(0 < n_sketches \<and> num_sketches (shared s) = n_sketches) \<or>
         (n_sketches = - 1 \<and> num_sketches (shared s) = - 1)"
    and "current_pick_epoch (shared s) = 0" and "current_put_epoch (shared s) = 0"
    and "current_sketch (shared s) = 0" and "done_in_current_epoch (shared s) = 0"
    and "queue_log s = []" and "\<exists>k. workers s = replicate k new_worker"
  using assms
  by (auto simp: stream_def Let_def randint_def split: pynumber.splits sum.splits if_splits)

lemma count_workers_new:
  "workers s = replicate k new_worker \<Longrightarrow>
   (\<And>w. P w \<Longrightarrow> pc w \<noteq> AtLoopHead) \<Longrightarrow> count_workers P s = 0"
proof -
  assume ws: "workers s = replicate k new_worker"
    and p: "\<And>w. P w \<Longrightarrow> pc w \<noteq> AtLoopHead"
  have "pc (new_worker :: 'a worker) = AtLoopHead" by (simp add: new_worker_def)
  with p have "\<not> P new_worker" by blast
  with ws show ?thesis by (simp add: count_workers_def)
qed

lemma stream_bounded_inv:
  assumes "stream modules n_sketches n_epochs n_workers maxid cpu_count rnd = Inr s"
    and "0 < n_sketches"
  shows "bounded_inv s"
proof -
  note f = stream_cases [OF assms(1)]
  from f(7) obtain k where ws: "workers s = replicate k new_worker" ..
  have pn: "pc (new_worker :: 'a worker) = AtLoopHead" by (simp add: new_worker_def)
  have n: "num_sketches (shared s) = n_sketches" using f(1) assms(2) by auto
  have h: "count_workers (holding e) s = 0" for e
    using ws by (rule count_workers_new) (auto simp: holding_def)
  have c: "count_workers at_count s = 0"
    using ws by (rule count_workers_new) (auto simp: at_count_def)
  have t: "count_workers at_sentinel s = 0"
    using ws by (rule count_workers_new) (auto simp: at_sentinel_def)
  have 1: "inv_counters (shared s)" using f n assms(2) by (simp add: inv_counters_def)
  have 2: "inv_slots s" using f n assms(2) h by (simp add: inv_slots_def claimed_def)
  have 3: "inv_turn s" using ws pn by (auto simp: inv_turn_def)
  have 4: "inv_sentinel s" using t by (simp add: inv_sentinel_def)
  have 5: "inv_log s" using f c by (simp add: inv_log_def)
  from 1 2 3 4 5 show ?thesis by (simp add: bounded_inv_def)
qed

lemma stream_unbounded_inv:
  assumes "stream modules n_sketches n_epochs n_workers maxid cpu_count rnd = Inr s"
    and "\<not> 0 < n_sketches"
  shows "unbounded_inv s"
proof -
  note f = stream_cases [OF assms(1)]
  from f(7) obtain k where ws: "workers s = replicate k new_worker" ..
  have pn: "pc (new_worker :: 'a worker) = AtLoopHead" by (simp add: new_worker_def)
  show ?thesis using f assms(2) ws pn by (auto simp: unbounded_inv_def)
qed

lemma worker_step_num_sketches:
  assumes st: "worker_step rnd oc i s = Some s'"
  shows "num_sketches (shared s') = num_sketches (shared s)"
proof -
  let ?w = "workers s ! i"
  have i: "i < length (workers s)" using st by (rule worker_step_index)
  show ?thesis
  proof (cases "pc ?w = AtClaim")
    case True
    obtain sh' r where cl: "claim (modules_of s) rnd (shared s) = (sh', r)"
      by (cases "claim (modules_of s) rnd (shared s)") auto
    from st i True cl have "shared s' = sh'"
      by (cases r) (auto simp: worker_step_def Let_def set_worker_def split: if_splits)
    with claim_fields(1) [OF cl] show ?thesis by simp
  next
    case False
    with st i show ?thesis
      by (cases "pc ?w")
        (auto simp: worker_step_def Let_def set_worker_def put_def
          split: if_splits sum.splits option.splits)
  qed
qed

lemma step_num_sketches:
  "step ev s = Some s' \<Longrightarrow> num_sketches (shared s') = num_sketches (shared s)"
  by (cases ev) (auto simp: worker_step_num_sketches split: if_splits)

lemma run_num_sketches:
  "run evs s = Some s' \<Longrightarrow> num_sketches (shared s') = num_sketches (shared s)"
proof (induction evs arbitrary: s)
  case Nil
  then show ?case by simp
next
  case (Cons ev evs)
  from Cons.prems obtain s1 where s1: "step ev s = Some s1" and r: "run evs s1 = Some s'"
    by (auto split: option.splits)
  from Cons.IH [OF r] step_num_sketches [OF s1] show ?case by simp
qed

lemma terminators_epoch_sizes:
  "length (filter (\<lambda>m. m = Terminator) ms) = length (fst (epoch_sizes k ms))"
  by (induction k ms rule: epoch_sizes.induct) (auto split: prod.splits)

lemma bounded_inv_open_epoch:
  assumes inv: "bounded_inv s"
  shows "done_in_current_epoch (shared s) + count_workers at_count s \<le> num_sketches (shared s)"
proof -
  let ?P = "current_put_epoch (shared s)"
  have c: "inv_counters (shared s)" and sl: "inv_slots s" and tu: "inv_turn s"
    using inv by (simp_all add: bounded_inv_def)
  have "count_workers at_count s \<le> count_workers (holding ?P) s"
  proof (rule count_workers_mono)
    fix x assume "x \<in> set (workers s)" "at_count x"
    with tu show "holding ?P x" by (auto simp: at_count_def inv_turn_def holding_def)
  qed
  moreover from sl have "count_workers (holding ?P) s
        + (if ?P = ?P then done_in_current_epoch (shared s) else 0) \<le> claimed (shared s) ?P"
    unfolding inv_slots_def by (rule spec)
  moreover have "claimed (shared s) ?P \<le> num_sketches (shared s)" using c by (rule claimed_le)
  ultimately show ?thesis by simp
qed

lemma bounded_inv_sentinel_worker:
  assumes inv: "bounded_inv s" and w: "w \<in> set (workers s)" and p: "pc w = AtPutSentinel"
  shows "lock s \<and> done_in_current_epoch (shared s) = num_sketches (shared s)"
proof -
  have "\<not> count_workers at_sentinel s \<le> 0"
    using count_workers_zero [OF _ w, of at_sentinel] p by (auto simp: at_sentinel_def)
  then have "1 \<le> count_workers at_sentinel s" by simp
  with inv show ?thesis by (simp add: bounded_inv_def inv_sentinel_def)
qed

lemma counting_step:
  assumes "pc (workers s ! i) = AtCount" and "worker_step rnd oc i s = Some s'"
  shows "\<not> lock s
       \<and> done_in_current_epoch (shared s') = done_in_current_epoch (shared s) + 1
       \<and> current_put_epoch (shared s') = current_put_epoch (shared s)
       \<and> queue_log s' = queue_log s
       \<and> (pc (workers s' ! i) = AtPutSentinel) =
            (done_in_current_epoch (shared s') = num_sketches (shared s))
       \<and> lock s' = (done_in_current_epoch (shared s') = num_sketches (shared s))"
  using assms worker_step_index [OF assms(2)]
  by (auto simp: worker_step_def Let_def set_worker_def split: if_splits)

lemma sentinel_step:
  assumes "pc (workers s ! i) = AtPutSentinel" and "worker_step rnd oc i s = Some s'"
  shows "queue_log s' = queue_log s @ [Terminator]
       \<and> done_in_current_epoch (shared s') = 0
       \<and> current_put_epoch (shared s') = current_put_epoch (shared s) + 1
       \<and> \<not> lock s'"
  using assms worker_step_index [OF assms(2)]
  by (auto simp: worker_step_def Let_def set_worker_def put_def split: if_splits)

section \<open>Epoch order of the published results\<close>

lemma upt_0_2: "[0..<2] = [0, Suc 0]"
  by (simp add: numeral_2_eq_2)

lemmas run_example_simps =
  stream_def pick_num_workers_def randint_def int16_max_def int32_def Let_def new_worker_def
  example_epoch_def example_step_def example_draw_def worker_step_def set_worker_def claim_def
  py_index_def get_module_def queue_full_def put_def py_min_def py_max_def int_half_def upt_0_2

lemma example_epoch_reached:
  "\<exists>s0 s. (stream ModulesDataset 2 1 1 None 8 (example_draw 5) :: error + nat stream_state) = Inr s0
     \<and> run example_epoch s0 = Some s
     \<and> queue_log s = [Item 7 5, Item 7 5, Terminator]
     \<and> current_put_epoch (shared s) = 1"
  by (simp add: run_example_simps)

text \<open>
  Claim C1. In bounded-epoch mode (\<open>num_sketches > 0\<close>), in every state that any interleaving
  of the workers, the consumer and the coordinator reaches from a stream just started:
  \<^item> the messages put so far are, in order, one closed epoch of exactly \<open>num_sketches\<close> items
    followed by its terminator for each put epoch passed, and then at most \<open>num_sketches\<close>
    items of the open epoch;
  \<^item> the terminators put are as many as \<open>current_put_epoch\<close>: one for each completed epoch;
  \<^item> a worker that puts or has just put its item works for the put epoch, so the items between
    two terminators are the items of that epoch;
  \<^item> a worker about to put the terminator holds the lock, and \<open>done_in_current_epoch\<close> equals
    \<open>num_sketches\<close>;
  \<^item> the counting step runs with the lock free, adds one to \<open>done_in_current_epoch\<close>, and goes
    on (holding the lock) to put the terminator exactly when the count equals
    \<open>num_sketches\<close>; that step appends the terminator, resets the count to 0 and adds one to
    \<open>current_put_epoch\<close>.
\<close>

theorem terminator_once_per_epoch:
  assumes "stream modules n_sketches n_epochs n_workers maxid cpu_count rnd = Inr s0"
    and "0 < n_sketches" and "run evs s0 = Some s"
  shows "fst (epoch_sizes 0 (queue_log s)) =
           replicate (nat (current_put_epoch (shared s))) (nat n_sketches)
       \<and> snd (epoch_sizes 0 (queue_log s)) \<le> nat n_sketches
       \<and> length (filter (\<lambda>m. m = Terminator) (queue_log s)) = nat (current_put_epoch (shared s))
       \<and> (\<forall>w \<in> set (workers s).
             pc w = AtPutItem \<or> pc w = AtCount \<longrightarrow> epoch w = current_put_epoch (shared s))
       \<and> (\<forall>w \<in> set (workers s).
             pc w = AtPutSentinel \<longrightarrow>
               lock s \<and> done_in_current_epoch (shared s) = n_sketches)
       \<and> (\<forall>i r oc s'.
             pc (workers s ! i) = AtCount \<and> worker_step r oc i s = Some s' \<longrightarrow>
               \<not> lock s
               \<and> done_in_current_epoch (shared s') = done_in_current_epoch (shared s) + 1
               \<and> current_put_epoch (shared s') = current_put_epoch (shared s)
               \<and> queue_log s' = queue_log s
               \<and> (pc (workers s' ! i) = AtPutSentinel) =
                    (done_in_current_epoch (shared s') = n_sketches)
               \<and> lock s' = (done_in_current_epoch (shared s') = n_sketches))
       \<and> (\<forall>i r oc s'.
             pc (workers s ! i) = AtPutSentinel \<and> worker_step r oc i s = Some s' \<longrightarrow>
               queue_log s' = queue_log s @ [Terminator]
               \<and> done_in_current_epoch (shared s') = 0
               \<and> current_put_epoch (shared s') = current_put_epoch (shared s) + 1
               \<and> \<not> lock s')"
proof -
  have inv0: "bounded_inv s0" using assms(1,2) by (rule stream_bounded_inv)
  have inv: "bounded_inv s" using inv0 assms(3) by (rule bounded_inv_run)
  have "num_sketches (shared s0) = n_sketches" using stream_cases(1) [OF assms(1)] assms(2) by auto
  with run_num_sketches [OF assms(3)] have n: "num_sketches (shared s) = n_sketches" by simp
  have lo: "epoch_sizes 0 (queue_log s) =
        (replicate (nat (current_put_epoch (shared s))) (nat n_sketches),
         nat (done_in_current_epoch (shared s) + count_workers at_count s))"
    using inv n by (simp add: bounded_inv_def inv_log_def)
  have a: "fst (epoch_sizes 0 (queue_log s)) =
           replicate (nat (current_put_epoch (shared s))) (nat n_sketches)"
    using lo by simp
  have b: "snd (epoch_sizes 0 (queue_log s)) \<le> nat n_sketches"
    using lo bounded_inv_open_epoch [OF inv] n by simp
  have c: "length (filter (\<lambda>m. m = Terminator) (queue_log s)) = nat (current_put_epoch (shared s))"
    using a by (simp add: terminators_epoch_sizes [of "queue_log s" 0])
  have d: "\<forall>w \<in> set (workers s).
             pc w = AtPutItem \<or> pc w = AtCount \<longrightarrow> epoch w = current_put_epoch (shared s)"
    using inv by (simp add: bounded_inv_def inv_turn_def)
  have e: "\<forall>w \<in> set (workers s).
             pc w = AtPutSentinel \<longrightarrow> lock s \<and> done_in_current_epoch (shared s) = n_sketches"
    using bounded_inv_sentinel_worker [OF inv] n by auto
  have f: "\<forall>i r oc s'.
             pc (workers s ! i) = AtCount \<and> worker_step r oc i s = Some s' \<longrightarrow>
               \<not> lock s
               \<and> done_in_current_epoch (shared s') = done_in_current_epoch (shared s) + 1
               \<and> current_put_epoch (shared s') = current_put_epoch (shared s)
               \<and> queue_log s' = queue_log s
               \<and> (pc (workers s' ! i) = AtPutSentinel) =
                    (done_in_current_epoch (shared s') = n_sketches)
               \<and> lock s' = (done_in_current_epoch (shared s') = n_sketches)"
  proof (intro allI impI)
    fix i r oc s'
    assume "pc (workers s ! i) = AtCount \<and> worker_step r oc i s = Some s'"
    then have "pc (workers s ! i) = AtCount" "worker_step r oc i s = Some s'" by simp_all
    from counting_step [OF this]
    show "\<not> lock s
               \<and> done_in_current_epoch (shared s') = done_in_current_epoch (shared s) + 1
               \<and> current_put_epoch (shared s') = current_put_epoch (shared s)
               \<and> queue_log s' = queue_log s
               \<and> (pc (workers s' ! i) = AtPutSentinel) =
                    (done_in_current_epoch (shared s') = n_sketches)
               \<and> lock s' = (done_in_current_epoch (shared s') = n_sketches)"
      by (simp add: n)
  qed
  have g: "\<forall>i r oc s'.
             pc (workers s ! i) = AtPutSentinel \<and> worker_step r oc i s = Some s' \<longrightarrow>
               queue_log s' = queue_log s @ [Terminator]
               \<and> done_in_current_epoch (shared s') = 0
               \<and> current_put_epoch (shared s') = current_put_epoch (shared s) + 1
               \<and> \<not> lock s'"
  proof (intro allI impI)
    fix i r oc s'
    assume "pc (workers s ! i) = AtPutSentinel \<and> worker_step r oc i s = Some s'"
    then have "pc (workers s ! i) = AtPutSentinel" "worker_step r oc i s = Some s'" by simp_all
    from sentinel_step [OF this]
    show "queue_log s' = queue_log s @ [Terminator]
               \<and> done_in_current_epoch (shared s') = 0
               \<and> current_put_epoch (shared s') = current_put_epoch (shared s) + 1
               \<and> \<not> lock s'"
      by simp
  qed
  from a b c d e f g show ?thesis by (intro conjI)
qed

text \<open>
  Claim C1, witness: one worker completes an epoch of two items; the messages put are two
  items and one terminator.
\<close>

theorem terminator_once_per_epoch_witness:
  "\<exists>s0 s. (stream ModulesDataset 2 1 1 None 8 (example_draw 5) :: error + nat stream_state) = Inr s0
     \<and> run example_epoch s0 = Some s
     \<and> queue_log s = [Item 7 5, Item 7 5, Terminator]
     \<and> current_put_epoch (shared s) = 1
     \<and> fst (epoch_sizes 0 (queue_log s)) = [2]"
proof -
  from example_epoch_reached obtain s0 s where
    s0: "(stream ModulesDataset 2 1 1 None 8 (example_draw 5) :: error + nat stream_state) = Inr s0"
    and r: "run example_epoch s0 = Some s"
    and q: "queue_log s = [Item 7 5, Item 7 5, Terminator]"
    and p: "current_put_epoch (shared s) = 1"
    by blast
  have "(0::int) < 2" by simp
  from terminator_once_per_epoch [OF s0 this r] p
  have "fst (epoch_sizes 0 (queue_log s)) = [2]" by (simp add: numeral_2_eq_2)
  with s0 r q p show ?thesis by blast
qed

text \<open>
  Claim C2. In every state that any interleaving reaches from a stream just started (with a
  list of ids or without), \<open>current_put_epoch \<le> current_pick_epoch\<close>.
\<close>

theorem put_epoch_le_pick_epoch:
  assumes "stream modules n_sketches n_epochs n_workers maxid cpu_count rnd = Inr s0"
    and "run evs s0 = Some s"
  shows "current_put_epoch (shared s) \<le> current_pick_epoch (shared s)"
proof (cases "0 < n_sketches")
  case True
  with assms(1) have "bounded_inv s0" by (rule stream_bounded_inv)
  then have "bounded_inv s" using assms(2) by (rule bounded_inv_run)
  then show ?thesis by (simp add: bounded_inv_def inv_counters_def)
next
  case False
  with assms(1) have "unbounded_inv s0" by (rule stream_unbounded_inv)
  then have "unbounded_inv s" using assms(2) by (rule unbounded_inv_run)
  then show ?thesis by (simp add: unbounded_inv_def)
qed

text \<open>
  Claim C2, witness: the state reached when one worker has completed an epoch of two items.
\<close>

theorem put_epoch_le_pick_epoch_witness:
  "\<exists>s0 s. (stream ModulesDataset 2 1 1 None 8 (example_draw 5) :: error + nat stream_state) = Inr s0
     \<and> run example_epoch s0 = Some s
     \<and> current_put_epoch (shared s) \<le> current_pick_epoch (shared s)"
proof -
  from example_epoch_reached obtain s0 s where
    s0: "(stream ModulesDataset 2 1 1 None 8 (example_draw 5) :: error + nat stream_state) = Inr s0"
    and r: "run example_epoch s0 = Some s"
    by blast
  from put_epoch_le_pick_epoch [OF s0 r] s0 r show ?thesis by blast
qed

end
